theory Spec2Isabelle
  imports Complex_Main "HOL-Library.Word" "HOL-Library.Sublist"
begin

section \<open>JavaScript strings\<close>

text \<open>
  A JavaScript string is a sequence of UTF-16 code units, and \<open>length\<close> counts code units.
  The bullet glyphs of \<open>app.js\<close> lie in the Basic Multilingual Plane: one code unit each.
\<close>

type_synonym cu = "16 word"
type_synonym jsstring = "cu list"

text \<open>An ASCII literal of the source, as code units.\<close>

definition js :: "string \<Rightarrow> jsstring" where
  "js s = map (\<lambda>c. of_nat (of_char c)) s"

text \<open>ECMAScript \<open>LineTerminator\<close>: LF, CR, LS, PS.\<close>

definition isLineTerminator :: "cu \<Rightarrow> bool" where
  "isLineTerminator c = (c = 0x000A \<or> c = 0x000D \<or> c = 0x2028 \<or> c = 0x2029)"

text \<open>ECMAScript \<open>WhiteSpace\<close>: TAB, VT, FF, ZWNBSP and the category Zs.\<close>

definition isWhiteSpace :: "cu \<Rightarrow> bool" where
  "isWhiteSpace c =
     (c = 0x0009 \<or> c = 0x000B \<or> c = 0x000C \<or> c = 0x0020 \<or> c = 0x00A0 \<or> c = 0x1680 \<or>
      (0x2000 \<le> c \<and> c \<le> 0x200A) \<or> c = 0x202F \<or> c = 0x205F \<or> c = 0x3000 \<or> c = 0xFEFF)"

text \<open>What \<open>\s\<close> matches and what \<open>String.prototype.trim\<close> strips.\<close>

definition isSpace :: "cu \<Rightarrow> bool" where
  "isSpace c = (isWhiteSpace c \<or> isLineTerminator c)"

text \<open>What \<open>\d\<close> matches.\<close>

definition isDigit :: "cu \<Rightarrow> bool" where
  "isDigit c = (0x0030 \<le> c \<and> c \<le> 0x0039)"

definition trim :: "jsstring \<Rightarrow> jsstring" where
  "trim s = rev (dropWhile isSpace (rev (dropWhile isSpace s)))"

text \<open>
  \<open>String.prototype.split\<close> with a string separator: the pieces between the occurrences of
  the separator, found from left to right without overlap. An empty separator splits into
  code units.
\<close>

function splitOn :: "jsstring \<Rightarrow> jsstring \<Rightarrow> jsstring list" where
  "splitOn sep [] = [[]]"
| "splitOn sep (c # cs) =
     (if sep \<noteq> [] \<and> take (length sep) (c # cs) = sep
      then [] # splitOn sep (drop (length sep) (c # cs))
      else (case splitOn sep cs of
              [] \<Rightarrow> [[c]]
            | p # ps \<Rightarrow> (c # p) # ps))"
  by pat_completeness auto
termination
  by (relation "measure (\<lambda>(sep, s). length s)") auto

definition split :: "jsstring \<Rightarrow> jsstring \<Rightarrow> jsstring list" where
  "split sep s = (if sep = [] then map (\<lambda>c. [c]) s else splitOn sep s)"

fun join :: "jsstring \<Rightarrow> jsstring list \<Rightarrow> jsstring" where
  "join sep [] = []"
| "join sep [p] = p"
| "join sep (p # q # ps) = p @ sep @ join sep (q # ps)"

section \<open>Regular expressions\<close>

text \<open>
  The fragment of ECMAScript regular expressions that \<open>app.js\<close> uses: a literal code unit,
  a character class \<open>[...]\<close>, the escapes \<open>\d\<close> and \<open>\s\<close>, the dot, the assertions \<open>^\<close> and
  \<open>$\<close>, concatenation, the greedy quantifier \<open>{n,}\<close> (\<open>+\<close> is \<open>{1,}\<close>) and capture groups.
\<close>

datatype re =
    Lit cu
  | OneOf "cu list"
  | Digit
  | Space
  | Dot
  | Bol
  | Eol
  | Seq re re
  | Rep nat re
  | Group nat re

abbreviation Plus :: "re \<Rightarrow> re" where
  "Plus r \<equiv> Rep (Suc 0) r"

text \<open>
  A matcher state: the code unit before the current position (\<open>None\<close> at index 0), the input
  from the current position on, and the captures.
\<close>

type_synonym captures = "nat \<Rightarrow> jsstring option"
type_synonym mstate = "cu option \<times> jsstring \<times> captures"

fun re_size :: "re \<Rightarrow> nat" where
  "re_size (Seq r1 r2) = Suc (re_size r1 + re_size r2)"
| "re_size (Rep n r) = Suc (n + re_size r)"
| "re_size (Group i r) = Suc (re_size r)"
| "re_size r = 0"

definition one :: "(cu \<Rightarrow> bool) \<Rightarrow> mstate \<Rightarrow> mstate list" where
  "one P st = (case st of (p, cs, g) \<Rightarrow>
     (case cs of [] \<Rightarrow> [] | c # cs' \<Rightarrow> if P c then [(Some c, cs', g)] else []))"

text \<open>
  The backtracking matcher of ECMAScript, as the list of all the ways the pattern matches
  from a state, in the order in which backtracking tries them: the head of the list is the
  match that \<open>exec\<close> reports. \<open>ml\<close> is the flag \<open>m\<close>. An iteration of \<open>{0,}\<close> that consumes
  nothing is rejected, as in \<open>RepeatMatcher\<close>.
\<close>

function run :: "bool \<Rightarrow> re \<Rightarrow> mstate \<Rightarrow> mstate list" where
  "run ml (Lit a) st = one (\<lambda>c. c = a) st"
| "run ml (OneOf as) st = one (\<lambda>c. c \<in> set as) st"
| "run ml Digit st = one isDigit st"
| "run ml Space st = one isSpace st"
| "run ml Dot st = one (\<lambda>c. \<not> isLineTerminator c) st"
| "run ml Bol (p, cs, g) =
     (if (case p of None \<Rightarrow> True | Some c \<Rightarrow> ml \<and> isLineTerminator c) then [(p, cs, g)] else [])"
| "run ml Eol (p, cs, g) =
     (if (case cs of [] \<Rightarrow> True | c # _ \<Rightarrow> ml \<and> isLineTerminator c) then [(p, cs, g)] else [])"
| "run ml (Seq r1 r2) st = concat (map (run ml r2) (run ml r1 st))"
| "run ml (Group i r) (p, cs, g) =
     map (\<lambda>(p', cs', g'). (p', cs', g'(i \<mapsto> take (length cs - length cs') cs)))
       (run ml r (p, cs, g))"
| "run ml (Rep n r) (p, cs, g) =
     concat (map (\<lambda>(p', cs', g').
                if n = 0 \<and> length cs \<le> length cs' then []
                else run ml (Rep (n - 1) r) (p', cs', g'))
             (run ml r (p, cs, g)))
     @ (if n = 0 then [(p, cs, g)] else [])"
  by pat_completeness auto
termination
  by (relation "measures [\<lambda>(ml, r, st). re_size r, \<lambda>(ml, r, p, cs, g). length cs]") auto

text \<open>The match at one position, if any.\<close>

definition firstOf :: "'a list \<Rightarrow> 'a option" where
  "firstOf xs = (case xs of [] \<Rightarrow> None | x # _ \<Rightarrow> Some x)"

definition matchAt :: "bool \<Rightarrow> re \<Rightarrow> cu option \<Rightarrow> jsstring \<Rightarrow> mstate option" where
  "matchAt ml r p cs = firstOf (run ml r (p, cs, Map.empty))"

text \<open>
  \<open>RegExpBuiltinExec\<close> without the flag \<open>g\<close>: the first position, from index 0 on, at which
  the pattern matches. \<open>String.prototype.match\<close> is used by the source for its truth value only.
\<close>

fun search :: "bool \<Rightarrow> re \<Rightarrow> cu option \<Rightarrow> jsstring \<Rightarrow> bool" where
  "search ml r p [] = (matchAt ml r p [] \<noteq> None)"
| "search ml r p (c # cs) = (matchAt ml r p (c # cs) \<noteq> None \<or> search ml r (Some c) cs)"

definition match :: "bool \<Rightarrow> re \<Rightarrow> jsstring \<Rightarrow> bool" where
  "match ml r s = search ml r None s"

text \<open>A replacement template: literal text and the references \<open>$n\<close>.\<close>

datatype rpart = RLit jsstring | RRef nat

fun substitute :: "rpart list \<Rightarrow> captures \<Rightarrow> jsstring" where
  "substitute [] g = []"
| "substitute (RLit s # ps) g = s @ substitute ps g"
| "substitute (RRef n # ps) g = (case g n of None \<Rightarrow> [] | Some s \<Rightarrow> s) @ substitute ps g"

text \<open>
  \<open>String.prototype.replace\<close> with a pattern that has the flag \<open>g\<close>: from left to right, the
  text up to the next match is copied, the match is replaced, and the scan goes on at the end
  of the match (one code unit further after an empty match).
\<close>

function replaceFrom :: "bool \<Rightarrow> re \<Rightarrow> rpart list \<Rightarrow> cu option \<Rightarrow> jsstring \<Rightarrow> jsstring" where
  "replaceFrom ml r t p [] =
     (case matchAt ml r p [] of None \<Rightarrow> [] | Some (p', cs', g) \<Rightarrow> substitute t g)"
| "replaceFrom ml r t p (c # cs) =
     (case matchAt ml r p (c # cs) of
        None \<Rightarrow> c # replaceFrom ml r t (Some c) cs
      | Some (p', cs', g) \<Rightarrow>
          if length cs' < length (c # cs) then substitute t g @ replaceFrom ml r t p' cs'
          else substitute t g @ c # replaceFrom ml r t (Some c) cs)"
  by pat_completeness auto
termination
  by (relation "measure (\<lambda>(ml, r, t, p, s). length s)") auto

definition replace :: "bool \<Rightarrow> re \<Rightarrow> rpart list \<Rightarrow> jsstring \<Rightarrow> jsstring" where
  "replace ml r t s = replaceFrom ml r t None s"

section \<open>The converter\<close>

subsection \<open>Line reconstruction\<close>

text \<open>
  A JavaScript Number is an IEEE 754 double: a finite value, an infinity or NaN. A finite
  double is given by the real number it stands for (the two zeros are not told apart: the
  code only subtracts, takes the absolute value and compares). An arithmetic operation
  returns the exact result rounded to the nearest double, ties to the even significand,
  and an infinity when the rounded value is \<open>2 ^ 1024\<close> or more.
\<close>

datatype number = Finite real | PosInfinity | NegInfinity | NaN

definition roundEven :: "real \<Rightarrow> int" where
  "roundEven r =
     (let f = \<lfloor>r\<rfloor>; d = r - of_int f
      in if d < 1 / 2 then f else if 1 / 2 < d then f + 1 else if even f then f else f + 1)"

text \<open>
  The exponent of the binade of a positive real, which is the \<open>e\<close> with
  \<open>2\<^sup>e \<le> a < 2\<^sup>e\<^sup>+\<^sup>1\<close> and is found by halving or doubling, and \<open>- 1022\<close> for the subnormal
  numbers at the bottom; and the distance of two neighbouring doubles in that binade:
  the significand has 53 bits.
\<close>

function halvings :: "real \<Rightarrow> nat" where
  "halvings a = (if a < 2 then 0 else Suc (halvings (a / 2)))"
  by pat_completeness auto
termination
proof (relation "measure (\<lambda>a. nat \<lfloor>a\<rfloor>)")
  fix a :: real
  assume "\<not> a < 2"
  then have h: "a / 2 \<le> a - 1" and p: "of_int 2 \<le> a" by simp_all
  have "\<lfloor>a / 2\<rfloor> \<le> \<lfloor>a - 1\<rfloor>" using h by (rule floor_mono)
  also have "\<dots> = \<lfloor>a\<rfloor> - 1" by simp
  finally have l: "\<lfloor>a / 2\<rfloor> < \<lfloor>a\<rfloor>" by linarith
  have "2 \<le> \<lfloor>a\<rfloor>" using p by (simp only: le_floor_iff)
  then have "0 < \<lfloor>a\<rfloor>" by linarith
  with l show "(a / 2, a) \<in> measure (\<lambda>a. nat \<lfloor>a\<rfloor>)"
    unfolding in_measure zless_nat_conj by (intro conjI)
qed simp

function doublings :: "real \<Rightarrow> nat" where
  "doublings a = (if a \<le> 0 \<or> 1 \<le> a then 0 else Suc (doublings (2 * a)))"
  by pat_completeness auto
termination
proof (relation "measure (\<lambda>a. nat \<lceil>1 / a\<rceil>)")
  fix a :: real
  assume "\<not> (a \<le> 0 \<or> 1 \<le> a)"
  then have a: "0 < a" "a < 1" by simp_all
  then have x: "of_int 1 < 1 / a" by simp
  then have c: "1 < \<lceil>1 / a\<rceil>" by (simp only: less_ceiling_iff)
  have l: "\<lceil>1 / (2 * a)\<rceil> < \<lceil>1 / a\<rceil>"
  proof (cases "1 / a < 2")
    case True
    then have "1 / (2 * a) \<le> of_int 1" using a by (simp add: field_simps)
    then have "\<lceil>1 / (2 * a)\<rceil> \<le> 1" by (simp only: ceiling_le_iff)
    with c show ?thesis by linarith
  next
    case False
    then have "1 / (2 * a) \<le> 1 / a - 1" using a by (simp add: field_simps)
    then have "\<lceil>1 / (2 * a)\<rceil> \<le> \<lceil>1 / a - 1\<rceil>" by (rule ceiling_mono)
    also have "\<dots> = \<lceil>1 / a\<rceil> - 1" by simp
    finally show ?thesis by linarith
  qed
  from c have "0 < \<lceil>1 / a\<rceil>" by linarith
  with l show "(2 * a, a) \<in> measure (\<lambda>a. nat \<lceil>1 / a\<rceil>)"
    unfolding in_measure zless_nat_conj by (intro conjI)
qed simp

definition binade :: "real \<Rightarrow> int" where
  "binade a =
     (if a < 1 / 2 ^ 1022 then - 1022
      else if 1 \<le> a then int (halvings a) else - int (doublings a))"

definition ulp :: "real \<Rightarrow> real" where
  "ulp a = 2 powi (binade a - 52)"

definition roundDouble :: "real \<Rightarrow> number" where
  "roundDouble x =
     (if x = 0 then Finite 0
      else let m = of_int (roundEven (\<bar>x\<bar> / ulp \<bar>x\<bar>)) * ulp \<bar>x\<bar>
           in if 2 ^ 1024 \<le> m then (if x < 0 then NegInfinity else PosInfinity)
              else Finite (sgn x * m))"

text \<open>The operator \<open>-\<close>, \<open>Math.abs\<close> and the comparison \<open>>\<close> with a finite constant.\<close>

fun numSub :: "number \<Rightarrow> number \<Rightarrow> number" where
  "numSub (Finite a) (Finite b) = roundDouble (a - b)"
| "numSub (Finite a) PosInfinity = NegInfinity"
| "numSub (Finite a) NegInfinity = PosInfinity"
| "numSub PosInfinity (Finite b) = PosInfinity"
| "numSub PosInfinity NegInfinity = PosInfinity"
| "numSub PosInfinity PosInfinity = NaN"
| "numSub NegInfinity (Finite b) = NegInfinity"
| "numSub NegInfinity PosInfinity = NegInfinity"
| "numSub NegInfinity NegInfinity = NaN"
| "numSub NaN b = NaN"
| "numSub a NaN = NaN"

fun numAbs :: "number \<Rightarrow> number" where
  "numAbs (Finite a) = Finite \<bar>a\<bar>"
| "numAbs PosInfinity = PosInfinity"
| "numAbs NegInfinity = PosInfinity"
| "numAbs NaN = NaN"

fun numGreater :: "number \<Rightarrow> real \<Rightarrow> bool" where
  "numGreater (Finite a) c = (c < a)"
| "numGreater PosInfinity c = True"
| "numGreater NegInfinity c = False"
| "numGreater NaN c = False"

text \<open>
  An item of \<open>textContent.items\<close>: its string \<open>item.str\<close> and its vertical position
  \<open>item.transform[5]\<close>, a Number.
\<close>

record textItem =
  str :: jsstring
  y :: number

text \<open>The three variables of \<open>extractPageText\<close> that the loop body updates.\<close>

record pageState =
  lastY :: "number option"
  line :: jsstring
  pageText :: jsstring

definition paragraphBreak :: jsstring where
  "paragraphBreak = js [CHR 0x0A, CHR 0x0A]"

text \<open>The test \<open>lastY !== null && Math.abs(y - lastY) > 5\<close>.\<close>

definition lineBreakDetected :: "pageState \<Rightarrow> textItem \<Rightarrow> bool" where
  "lineBreakDetected s item =
     (case lastY s of None \<Rightarrow> False | Some l \<Rightarrow> numGreater (numAbs (numSub (y item) l)) 5)"

definition flushLine :: "pageState \<Rightarrow> pageState" where
  "flushLine s =
     (if trim (line s) \<noteq> [] then s\<lparr>pageText := pageText s @ trim (line s) @ paragraphBreak\<rparr>
      else s)"

definition itemStep :: "pageState \<Rightarrow> textItem \<Rightarrow> pageState" where
  "itemStep s item =
     (let s1 = (if lineBreakDetected s item then (flushLine s)\<lparr>line := []\<rparr> else s)
      in s1\<lparr>line := line s1 @ str item @ js '' '', lastY := Some (y item)\<rparr>)"

definition extractPageText :: "textItem list \<Rightarrow> jsstring" where
  "extractPageText items =
     pageText (flushLine (foldl itemStep \<lparr>lastY = None, line = [], pageText = []\<rparr> items))"

subsection \<open>Formatting\<close>

text \<open>The five patterns of \<open>formatAsMarkdown\<close>, in the order of the source.\<close>

definition bulletGlyphs :: "cu list" where
  "bulletGlyphs = [0x2022, 0x00B7, 0x25AA, 0x25B8, 0x25A0]"

definition reNumbered :: re where
  \<comment> \<open>\<open>/^\d+\./\<close>\<close>
  "reNumbered = Seq Bol (Seq (Plus Digit) (Lit 0x002E))"

definition reListMarker :: re where
  \<comment> \<open>\<open>/^[...\-\*]/\<close>: the five glyphs U+2022, U+00B7, U+25AA, U+25B8, U+25A0, then \<open>-\<close> and \<open>*\<close>\<close>
  "reListMarker = Seq Bol (OneOf (bulletGlyphs @ [0x002D, 0x002A]))"

definition reBullet :: re where
  \<comment> \<open>\<open>/^([...])\s+(.+)$/gm\<close>: the five glyphs only\<close>
  "reBullet =
     Seq Bol (Seq (Group 1 (OneOf bulletGlyphs)) (Seq (Plus Space) (Seq (Group 2 (Plus Dot)) Eol)))"

definition reOrdered :: re where
  \<comment> \<open>\<open>/^(\d+)\.\s+(.+)$/gm\<close>\<close>
  "reOrdered =
     Seq Bol (Seq (Group 1 (Plus Digit)) (Seq (Lit 0x002E)
       (Seq (Plus Space) (Seq (Group 2 (Plus Dot)) Eol))))"

definition reBlankLines :: re where
  \<comment> \<open>\<open>/\n{3,}/g\<close>\<close>
  "reBlankLines = Rep 3 (Lit 0x000A)"

definition formatBullets :: "jsstring \<Rightarrow> jsstring" where
  \<comment> \<open>\<open>markdown.replace(/^([...])\s+(.+)$/gm, '- $2')\<close>\<close>
  "formatBullets = replace True reBullet [RLit (js ''- ''), RRef 2]"

definition formatNumbered :: "jsstring \<Rightarrow> jsstring" where
  \<comment> \<open>\<open>markdown.replace(/^(\d+)\.\s+(.+)$/gm, '$1. $2')\<close>\<close>
  "formatNumbered = replace True reOrdered [RRef 1, RLit (js ''. ''), RRef 2]"

definition cleanBlankLines :: "jsstring \<Rightarrow> jsstring" where
  \<comment> \<open>\<open>markdown.replace(/\n{3,}/g, '\n\n')\<close>\<close>
  "cleanBlankLines = replace False reBlankLines [RLit paragraphBreak]"

text \<open>
  Reading a property of \<open>undefined\<close> throws a \<open>TypeError\<close>: the one way the code of
  \<open>formatAsMarkdown\<close> could throw, at \<open>arr[idx + 1].length\<close>.
\<close>

datatype error = TypeError

definition element :: "'a list \<Rightarrow> nat \<Rightarrow> 'a option" where
  "element xs i = (if i < length xs then Some (xs ! i) else None)"

text \<open>The callback of \<open>paragraphs.map\<close>; the conjunction is evaluated from left to right.\<close>

definition formatParagraph :: "jsstring list \<Rightarrow> nat \<Rightarrow> error + jsstring" where
  "formatParagraph arr idx =
     (case element arr idx of
        None \<Rightarrow> Inl TypeError
      | Some para \<Rightarrow>
          (let trimmed = trim para in
           if length trimmed > 5 \<and> length trimmed < 60 \<and> \<not> match False reNumbered trimmed \<and>
              \<not> match False reListMarker trimmed \<and> int idx < int (length arr) - 1
           then (case element arr (idx + 1) of
                   None \<Rightarrow> Inl TypeError
                 | Some nxt \<Rightarrow>
                     if length nxt > length trimmed then Inr (js ''## '' @ trimmed)
                     else Inr trimmed)
           else Inr trimmed))"

text \<open>\<open>Array.prototype.map\<close>: the callback at every index in order, up to the first throw.\<close>

fun collect :: "(error + 'a) list \<Rightarrow> error + 'a list" where
  "collect [] = Inr []"
| "collect (Inl e # rs) = Inl e"
| "collect (Inr x # rs) = (case collect rs of Inl e \<Rightarrow> Inl e | Inr xs \<Rightarrow> Inr (x # xs))"

definition formattedParagraphs :: "jsstring list \<Rightarrow> error + jsstring list" where
  "formattedParagraphs arr = collect (map (formatParagraph arr) [0..<length arr])"

definition paragraphs :: "jsstring \<Rightarrow> jsstring list" where
  "paragraphs text = filter (\<lambda>p. trim p \<noteq> []) (split paragraphBreak text)"

definition formatAsMarkdown :: "jsstring \<Rightarrow> error + jsstring" where
  "formatAsMarkdown text =
     (case formattedParagraphs (paragraphs text) of
        Inl e \<Rightarrow> Inl e
      | Inr ps \<Rightarrow>
          Inr (trim (cleanBlankLines (formatNumbered (formatBullets (join paragraphBreak ps))))))"

subsection \<open>The page loop\<close>

definition pageSeparator :: jsstring where
  "pageSeparator = paragraphBreak @ js ''---'' @ paragraphBreak"

text \<open>
  The loop of \<open>extractTextFromPDF\<close> over \<open>pageNum = 1 .. pdf.numPages\<close>; the document is
  the list of its pages' items, so \<open>pdf.numPages\<close> is its length.
\<close>

function pageLoop :: "textItem list list \<Rightarrow> nat \<Rightarrow> jsstring \<Rightarrow> jsstring" where
  "pageLoop pdf pageNum fullText =
     (if pageNum \<le> length pdf then
        (let fullText1 = fullText @ extractPageText (pdf ! (pageNum - 1));
             fullText2 = (if pageNum < length pdf then fullText1 @ pageSeparator else fullText1)
         in pageLoop pdf (pageNum + 1) fullText2)
      else fullText)"
  by pat_completeness auto
termination
  by (relation "measure (\<lambda>(pdf, pageNum, fullText). Suc (length pdf) - pageNum)") auto

definition extractTextFromPDF :: "textItem list list \<Rightarrow> error + jsstring" where
  "extractTextFromPDF pdf = formatAsMarkdown (pageLoop pdf 1 [])"

section \<open>The patterns in closed form\<close>

text \<open>
  What the patterns of \<open>formatAsMarkdown\<close> match, written as plain list functions. The
  theorems below prove that the backtracking matcher computes exactly these.
\<close>

text \<open>The code unit before the position reached after reading \<open>u\<close>.\<close>

definition lastOpt :: "cu option \<Rightarrow> jsstring \<Rightarrow> cu option" where
  "lastOpt p u = (if u = [] then p else Some (last u))"

text \<open>Where \<open>^\<close> holds under the flag \<open>m\<close>.\<close>

definition bol :: "cu option \<Rightarrow> bool" where
  "bol p = (case p of None \<Rightarrow> True | Some c \<Rightarrow> isLineTerminator c)"

definition lineOf :: "jsstring \<Rightarrow> jsstring" where
  "lineOf cs = takeWhile (\<lambda>c. \<not> isLineTerminator c) cs"

definition afterLine :: "jsstring \<Rightarrow> jsstring" where
  "afterLine cs = dropWhile (\<lambda>c. \<not> isLineTerminator c) cs"

text \<open>\<open>(.+)$\<close>: the rest of the line, which must not be empty; the result is the capture and
  the input after it.\<close>

definition captureLine :: "jsstring \<Rightarrow> (jsstring \<times> jsstring) option" where
  "captureLine cs = (if lineOf cs = [] then None else Some (lineOf cs, afterLine cs))"

text \<open>\<open>\s*(.+)$\<close>: as many spaces as possible, one fewer each time the rest fails.\<close>

fun spacesThenLine :: "jsstring \<Rightarrow> (jsstring \<times> jsstring) option" where
  "spacesThenLine [] = None"
| "spacesThenLine (c # cs) =
     (if isSpace c
      then (case spacesThenLine cs of Some r \<Rightarrow> Some r | None \<Rightarrow> captureLine (c # cs))
      else captureLine (c # cs))"

text \<open>\<open>\s+(.+)$\<close>, the common end of the two list patterns.\<close>

definition itemText :: "jsstring \<Rightarrow> (jsstring \<times> jsstring) option" where
  "itemText cs = (case cs of [] \<Rightarrow> None | c # cs' \<Rightarrow> if isSpace c then spacesThenLine cs' else None)"

text \<open>The bullet pattern at a position: the captured text and the input after the match.\<close>

definition bulletMatch :: "cu option \<Rightarrow> jsstring \<Rightarrow> (jsstring \<times> jsstring) option" where
  "bulletMatch p cs =
     (case cs of [] \<Rightarrow> None
      | b # cs' \<Rightarrow> if bol p \<and> b \<in> set bulletGlyphs then itemText cs' else None)"

text \<open>The numbered pattern at a position: the numeral, the captured text and the input after
  the match.\<close>

definition orderedMatch ::
  "cu option \<Rightarrow> jsstring \<Rightarrow> (jsstring \<times> jsstring \<times> jsstring) option" where
  "orderedMatch p cs =
     (if bol p \<and> takeWhile isDigit cs \<noteq> []
      then (case dropWhile isDigit cs of
              [] \<Rightarrow> None
            | d # cs' \<Rightarrow>
                if d = 0x002E
                then map_option (\<lambda>(cap, rest). (takeWhile isDigit cs, cap, rest)) (itemText cs')
                else None)
      else None)"

text \<open>The blank-line pattern at a position: the input after the whole run of newlines.\<close>

definition blankLinesMatch :: "jsstring \<Rightarrow> jsstring option" where
  "blankLinesMatch cs =
     (case cs of
        a # b # c # r \<Rightarrow>
          if a = 0x000A \<and> b = 0x000A \<and> c = 0x000A then Some (dropWhile (\<lambda>x. x = 0x000A) r)
          else None
      | _ \<Rightarrow> None)"

text \<open>The three replacements of \<open>formatAsMarkdown\<close>, from a position inside the text.\<close>

definition bulletsFrom :: "cu option \<Rightarrow> jsstring \<Rightarrow> jsstring" where
  "bulletsFrom p s = replaceFrom True reBullet [RLit (js ''- ''), RRef 2] p s"

definition numberedFrom :: "cu option \<Rightarrow> jsstring \<Rightarrow> jsstring" where
  "numberedFrom p s = replaceFrom True reOrdered [RRef 1, RLit (js ''. ''), RRef 2] p s"

definition blankLinesFrom :: "cu option \<Rightarrow> jsstring \<Rightarrow> jsstring" where
  "blankLinesFrom p s = replaceFrom False reBlankLines [RLit paragraphBreak] p s"


section \<open>The heading rule as the specification words it\<close>

text \<open>The text starts with one or more digits and a full stop.\<close>

definition startsNumbered :: "jsstring \<Rightarrow> bool" where
  "startsNumbered t =
     (takeWhile isDigit t \<noteq> [] \<and>
      (case dropWhile isDigit t of [] \<Rightarrow> False | c # _ \<Rightarrow> c = 0x002E))"

text \<open>The text starts with one of the five bullet glyphs, \<open>-\<close> or \<open>*\<close>.\<close>

definition startsWithMarker :: "jsstring \<Rightarrow> bool" where
  "startsWithMarker t =
     (case t of [] \<Rightarrow> False
      | c # _ \<Rightarrow> c = 0x2022 \<or> c = 0x00B7 \<or> c = 0x25AA \<or> c = 0x25B8 \<or> c = 0x25A0 \<or>
                 c = 0x002D \<or> c = 0x002A)"

text \<open>
  The specification's heading rule for the paragraph at index \<open>idx\<close> of the sequence
  \<open>arr\<close>, with \<open>t\<close> the trimmed paragraph: \<open>5 < length t < 60\<close>, no numeral prefix, no list
  marker, not the last paragraph, and the next paragraph, untrimmed, longer than \<open>t\<close>.
\<close>

definition headingBySpec :: "jsstring list \<Rightarrow> nat \<Rightarrow> bool" where
  "headingBySpec arr idx =
     (let t = trim (arr ! idx) in
      5 < length t \<and> length t < 60 \<and> \<not> startsNumbered t \<and> \<not> startsWithMarker t \<and>
      idx + 1 < length arr \<and> length t < length (arr ! (idx + 1)))"

section \<open>What a text carries\<close>

text \<open>A text read code unit by code unit, each unit contributing a piece.\<close>

definition reading :: "(cu \<Rightarrow> jsstring) \<Rightarrow> jsstring \<Rightarrow> jsstring" where
  "reading f s = concat (map f s)"

text \<open>A reading that sees no white space.\<close>

definition spaceBlind :: "(cu \<Rightarrow> jsstring) \<Rightarrow> bool" where
  "spaceBlind f = (\<forall>c. isSpace c \<longrightarrow> f c = [])"

text \<open>A reading that sees no white space and does not tell a bullet glyph from \<open>-\<close>.\<close>

definition blind :: "(cu \<Rightarrow> jsstring) \<Rightarrow> bool" where
  "blind f = (spaceBlind f \<and> (\<forall>c\<in>set bulletGlyphs. f c = f 0x002D))"

text \<open>The visible code units of a text: all but the white space, in order.\<close>

definition visibleUnit :: "cu \<Rightarrow> jsstring" where
  "visibleUnit c = (if isSpace c then [] else [c])"

definition visible :: "jsstring \<Rightarrow> jsstring" where
  "visible s = reading visibleUnit s"

text \<open>A code unit and what the formatter may have made of it: itself, or \<open>-\<close> of a bullet
  glyph.\<close>

definition sameMark :: "cu \<Rightarrow> cu \<Rightarrow> bool" where
  "sameMark a b = (b = a \<or> (a \<in> set bulletGlyphs \<and> b = 0x002D))"

text \<open>
  The content of a text: its code units in order, without white space and without the
  marks that the formatter writes or rewrites, which are the bullet glyphs, \<open>-\<close> and \<open>#\<close>.
\<close>

definition contentUnit :: "cu \<Rightarrow> jsstring" where
  "contentUnit c =
     (if isSpace c \<or> c \<in> set bulletGlyphs \<or> c = 0x002D \<or> c = 0x0023 then [] else [c])"

definition content :: "jsstring \<Rightarrow> jsstring" where
  "content s = reading contentUnit s"

section \<open>Lines of a list\<close>

text \<open>A line that is a bullet glyph followed by nothing but white space.\<close>

definition bareBullet :: "jsstring \<Rightarrow> bool" where
  "bareBullet l = (case l of [] \<Rightarrow> False | g # r \<Rightarrow> g \<in> set bulletGlyphs \<and> (\<forall>c\<in>set r. isSpace c))"

text \<open>A line with its bullet normalized: a glyph, white space and text become \<open>- \<close> and
  the text; any other line stays.\<close>

definition bulletLine :: "jsstring \<Rightarrow> jsstring" where
  "bulletLine l =
     (case l of [] \<Rightarrow> []
      | g # r \<Rightarrow>
          if g \<in> set bulletGlyphs \<and> takeWhile isSpace r \<noteq> [] \<and> dropWhile isSpace r \<noteq> []
          then js ''- '' @ dropWhile isSpace r
          else l)"

text \<open>A paragraph of one line that is its own trimmed form and starts with neither a
  bullet glyph nor a digit.\<close>

definition plainParagraph :: "jsstring \<Rightarrow> bool" where
  "plainParagraph p =
     (p \<noteq> [] \<and> (\<forall>c\<in>set p. \<not> isLineTerminator c) \<and> \<not> isSpace (hd p) \<and> \<not> isSpace (last p) \<and>
      hd p \<notin> set bulletGlyphs \<and> \<not> isDigit (hd p))"

section \<open>The lines of a page\<close>

text \<open>The test of \<open>extractPageText\<close> between an item and the item after it.\<close>

definition breakBetween :: "textItem \<Rightarrow> textItem \<Rightarrow> bool" where
  "breakBetween a b = numGreater (numAbs (numSub (y b) (y a))) 5"

text \<open>
  The lines of a page before trimming: each item's string followed by a space, an item
  joined to the line of the item before it unless the test between the two holds.
\<close>

fun pageLines :: "textItem list \<Rightarrow> jsstring list" where
  "pageLines [] = []"
| "pageLines [a] = [str a @ js '' '']"
| "pageLines (a # b # r) =
     (if breakBetween a b then (str a @ js '' '') # pageLines (b # r)
      else (str a @ js '' '' @ hd (pageLines (b # r))) # tl (pageLines (b # r)))"

text \<open>What a line contributes to the page's text: nothing when it is blank.\<close>

definition emitLine :: "jsstring \<Rightarrow> jsstring" where
  "emitLine l = (if trim l \<noteq> [] then trim l @ paragraphBreak else [])"

section \<open>Evaluation\<close>

lemmas char_eval = js_def isLineTerminator_def isWhiteSpace_def isSpace_def isDigit_def trim_def
  paragraphBreak_def

lemma trim_Nil: "trim [] = []"
  by (simp add: trim_def)

section \<open>Rounding to a double\<close>

lemma roundEven_of_int: "roundEven (of_int k) = k"
  by (simp add: roundEven_def)

lemma roundEven_ge: "of_int k \<le> r \<Longrightarrow> k \<le> roundEven r"
proof -
  assume "of_int k \<le> r"
  then have "k \<le> \<lfloor>r\<rfloor>" by (simp only: le_floor_iff)
  then show ?thesis by (simp add: roundEven_def Let_def)
qed

lemma roundEven_le: "r \<le> of_int k \<Longrightarrow> roundEven r \<le> k"
proof -
  assume a: "r \<le> of_int k"
  have f: "\<lfloor>r\<rfloor> \<le> k" using a by (simp add: floor_le_iff)
  show ?thesis
  proof (cases "\<lfloor>r\<rfloor> = k")
    case True
    then have "r - of_int \<lfloor>r\<rfloor> \<le> 0" using a by simp
    then show ?thesis using True by (simp add: roundEven_def Let_def)
  next
    case False
    with f have "\<lfloor>r\<rfloor> + 1 \<le> k" by simp
    then show ?thesis by (simp add: roundEven_def Let_def)
  qed
qed

lemma roundEven_above_even:
  assumes "even k"
  shows "k < roundEven r \<longleftrightarrow> of_int k + 1 / 2 < r"
proof
  assume l: "k < roundEven r"
  show "of_int k + 1 / 2 < r"
  proof (cases "k < \<lfloor>r\<rfloor>")
    case True
    then have "k + 1 \<le> \<lfloor>r\<rfloor>" by simp
    then have "of_int (k + 1) \<le> r" by (simp only: le_floor_iff)
    then show ?thesis by simp
  next
    case False
    with l have eq: "\<lfloor>r\<rfloor> = k"
      by (auto simp add: roundEven_def Let_def split: if_splits)
    with l assms have "1 / 2 < r - of_int k"
      by (auto simp add: roundEven_def Let_def split: if_splits)
    then show ?thesis by simp
  qed
next
  assume g: "of_int k + 1 / 2 < r"
  then have "of_int k \<le> r" by simp
  then have f: "k \<le> \<lfloor>r\<rfloor>" by (simp only: le_floor_iff)
  show "k < roundEven r"
  proof (cases "k = \<lfloor>r\<rfloor>")
    case True
    with g have "1 / 2 < r - of_int \<lfloor>r\<rfloor>" by simp
    then show ?thesis using True by (simp add: roundEven_def Let_def)
  next
    case False
    with f have "k < \<lfloor>r\<rfloor>" by simp
    then show ?thesis by (simp add: roundEven_def Let_def)
  qed
qed

declare halvings.simps [simp del] doublings.simps [simp del]

lemma halvings_bounds: "1 \<le> a \<Longrightarrow> 2 ^ halvings a \<le> a \<and> a < 2 ^ Suc (halvings a)"
proof (induction a rule: halvings.induct)
  case (1 a)
  show ?case
  proof (cases "a < 2")
    case True
    then show ?thesis using 1 by (simp add: halvings.simps [of a])
  next
    case False
    then have "2 ^ halvings (a / 2) \<le> a / 2 \<and> a / 2 < 2 ^ Suc (halvings (a / 2))"
      using 1 by simp
    then show ?thesis using False by (simp add: halvings.simps [of a])
  qed
qed

lemma doublings_bounds:
  "0 < a \<Longrightarrow> a < 1 \<Longrightarrow> 1 \<le> 2 ^ doublings a * a \<and> 2 ^ doublings a * a < 2"
proof (induction a rule: doublings.induct)
  case (1 a)
  show ?case
  proof (cases "2 * a < 1")
    case True
    then have "1 \<le> 2 ^ doublings (2 * a) * (2 * a) \<and> 2 ^ doublings (2 * a) * (2 * a) < 2"
      using 1 by simp
    then show ?thesis using 1(2,3) by (simp add: doublings.simps [of a])
  next
    case False
    then have "doublings (2 * a) = 0" by (simp add: doublings.simps [of "2 * a"])
    then show ?thesis using 1(2,3) False by (simp add: doublings.simps [of a])
  qed
qed

lemma binade_log:
  assumes "0 < a"
  shows "binade a = max \<lfloor>log 2 a\<rfloor> (- 1022)"
proof -
  consider "a < 1 / 2 ^ 1022" | "1 / 2 ^ 1022 \<le> a" "a < 1" | "1 \<le> a" by linarith
  then show ?thesis
  proof cases
    case 1
    then have "a < 2 powr (- 1022)" by (simp add: powr_minus_divide)
    then have "log 2 a < - 1022" using assms by (simp add: log_less_iff)
    then have "\<lfloor>log 2 a\<rfloor> \<le> - 1022" by (simp add: floor_le_iff)
    then show ?thesis using 1 by (simp add: binade_def)
  next
    case 2
    let ?n = "doublings a"
    have b: "1 \<le> 2 ^ ?n * a" "2 ^ ?n * a < 2" using doublings_bounds [OF assms 2(2)] by simp_all
    have e1: "2 powr of_int (- int ?n) = 1 / (2::real) ^ ?n"
      by (simp add: powr_minus_divide powr_realpow)
    have "2 powr (of_int (- int ?n) + 1) = 2 powr of_int (- int ?n) * (2::real)"
      by (simp only: powr_add) simp
    then have e2: "2 powr (of_int (- int ?n) + 1) = 2 / (2::real) ^ ?n"
      by (simp add: powr_minus_divide powr_realpow)
    have "1 / 2 ^ ?n \<le> a \<and> a < 2 / 2 ^ ?n"
      using b by (simp add: field_simps)
    then have "2 powr of_int (- int ?n) \<le> a \<and> a < 2 powr (of_int (- int ?n) + 1)"
      by (simp only: e1 e2)
    then have f: "\<lfloor>log 2 a\<rfloor> = - int ?n"
      using floor_log_eq_powr_iff [of a 2 "- int ?n"] assms by simp
    have "2 powr (- 1022) \<le> a" using 2(1) by (simp add: powr_minus_divide)
    then have "- 1022 \<le> log 2 a" using assms by (simp add: le_log_iff)
    then have "- 1022 \<le> \<lfloor>log 2 a\<rfloor>" by (simp add: le_floor_iff)
    then show ?thesis using 2 f by (simp add: binade_def)
  next
    case 3
    let ?n = "halvings a"
    have b: "2 ^ ?n \<le> a" "a < 2 ^ Suc ?n" using halvings_bounds [OF 3] by simp_all
    have "2 powr of_int (int ?n) = (2::real) ^ ?n"
      by (simp add: powr_realpow)
    moreover have "2 powr (of_int (int ?n) + 1) = (2::real) ^ Suc ?n"
      by (simp add: powr_add powr_realpow)
    ultimately have "2 powr of_int (int ?n) \<le> a \<and> a < 2 powr (of_int (int ?n) + 1)"
      using b by simp
    then have f: "\<lfloor>log 2 a\<rfloor> = int ?n"
      using floor_log_eq_powr_iff [of a 2 "int ?n"] assms by simp
    have "\<not> a < 1 / 2 ^ 1022" using 3 by (simp add: field_simps)
    then show ?thesis using 3 f by (simp add: binade_def)
  qed
qed

lemma ulp_powr: "ulp a = 2 powr (of_int (binade a) - 52)"
proof -
  have "(2::real) powr real_of_int (binade a - 52) = 2 powi (binade a - 52)"
    by (rule powr_real_of_int') simp_all
  then show ?thesis by (simp add: ulp_def)
qed

lemma ulp_pos: "0 < ulp a"
  by (simp add: ulp_def)

lemma powr_ulp: "2 powr c * ulp a = 2 powr (c + (of_int (binade a) - 52))"
  unfolding ulp_powr by (rule powr_add [symmetric])

lemma log2_bounds:
  assumes "0 < a"
  shows "2 powr of_int \<lfloor>log 2 a\<rfloor> \<le> a" "a < 2 powr (of_int \<lfloor>log 2 a\<rfloor> + 1)"
  using floor_log_eq_powr_iff [of a 2 "\<lfloor>log 2 a\<rfloor>"] assms by simp_all

lemma rounded_small:
  assumes "0 < a" "a < 4"
  shows "of_int (roundEven (a / ulp a)) * ulp a \<le> 4"
proof -
  have "a < 2 powr 2" using assms by simp
  then have "log 2 a < 2" using assms by (simp add: log_less_iff)
  then have e0: "\<lfloor>log 2 a\<rfloor> \<le> 1" by (simp add: floor_le_iff)
  then have e: "binade a \<le> 1" by (simp add: binade_log [OF assms(1)])
  have "\<lfloor>log 2 a\<rfloor> \<le> binade a" by (simp add: binade_log [OF assms(1)])
  then have "(2::real) powr (of_int \<lfloor>log 2 a\<rfloor> + 1) \<le> 2 powr (of_int (binade a) + 1)"
    by simp
  with log2_bounds(2) [OF assms(1)] have "a < 2 powr (of_int (binade a) + 1)"
    by (rule less_le_trans)
  also have "\<dots> = 2 powr 53 * ulp a"
    by (simp only: powr_ulp) (simp add: add.commute)
  finally have "a / ulp a < 2 powr 53" using ulp_pos [of a] by (simp add: pos_divide_less_eq)
  then have "a / ulp a \<le> of_int (2 ^ 53)" by simp
  then have "roundEven (a / ulp a) \<le> 2 ^ 53" by (rule roundEven_le)
  then have "(of_int (roundEven (a / ulp a)) :: real) \<le> of_int (2 ^ 53)" by (simp only: of_int_le_iff)
  then have "of_int (roundEven (a / ulp a)) * ulp a \<le> 2 powr 53 * ulp a"
    using ulp_pos [of a] by simp
  also have "\<dots> = 2 powr (of_int (binade a) + 1)"
    by (simp only: powr_ulp) (simp add: add.commute)
  also have "\<dots> \<le> 2 powr 2"
  proof (rule powr_mono)
    show "real_of_int (binade a) + 1 \<le> 2" using e by linarith
  qed simp
  finally show ?thesis by simp
qed

lemma rounded_large:
  assumes "8 \<le> a"
  shows "8 \<le> of_int (roundEven (a / ulp a)) * ulp a"
proof -
  have pos: "0 < a" using assms by simp
  have "2 powr 3 \<le> a" using assms by simp
  then have "3 \<le> log 2 a" using pos by (simp add: le_log_iff)
  then have e0: "3 \<le> \<lfloor>log 2 a\<rfloor>" by (simp add: le_floor_iff)
  then have e: "binade a = \<lfloor>log 2 a\<rfloor>" by (simp add: binade_log [OF pos])
  have "2 powr 52 * ulp a = 2 powr of_int (binade a)"
    by (simp only: powr_ulp) simp
  also have "\<dots> \<le> a" using log2_bounds(1) [OF pos] e by simp
  finally have "2 powr 52 \<le> a / ulp a" using ulp_pos [of a] by (simp add: pos_le_divide_eq)
  then have "of_int (2 ^ 52) \<le> a / ulp a" by simp
  then have "2 ^ 52 \<le> roundEven (a / ulp a)" by (rule roundEven_ge)
  then have "(of_int (2 ^ 52) :: real) \<le> of_int (roundEven (a / ulp a))" by (simp only: of_int_le_iff)
  then have "2 powr 52 * ulp a \<le> of_int (roundEven (a / ulp a)) * ulp a"
    using ulp_pos [of a] by simp
  moreover have "2 powr 52 * ulp a = 2 powr of_int (binade a)"
    by (simp only: powr_ulp) simp
  moreover have "(3::real) \<le> of_int \<lfloor>log 2 a\<rfloor>"
    using e0 by linarith
  then have "(2::real) powr 3 \<le> 2 powr of_int (binade a)"
    unfolding e by (intro powr_mono) simp_all
  ultimately show ?thesis by simp
qed

lemma ulp_middle:
  assumes "4 \<le> a" "a < 8"
  shows "ulp a = 1 / 2 ^ 50"
proof -
  have pos: "0 < a" using assms by simp
  have "2 powr of_int 2 \<le> a \<and> a < 2 powr (of_int 2 + 1)" using assms by simp
  then have "\<lfloor>log 2 a\<rfloor> = 2" using floor_log_eq_powr_iff [of a 2 2] pos by simp
  then have "binade a = 2" by (simp add: binade_log [OF pos])
  then have "ulp a = 2 powr (- 50)" by (simp add: ulp_powr)
  also have "\<dots> = 1 / 2 ^ 50" by (simp add: powr_minus_divide)
  finally show ?thesis .
qed

lemma rounded_middle:
  assumes "4 \<le> a" "a < 8"
  shows "5 < of_int (roundEven (a / ulp a)) * ulp a \<longleftrightarrow> 5 + 1 / 2 ^ 51 < a"
proof -
  have u: "ulp a = 1 / 2 ^ 50" using assms by (rule ulp_middle)
  have "5 < of_int (roundEven (a * 2 ^ 50)) / (2 ^ 50 :: real) \<longleftrightarrow>
        (5 * 2 ^ 50 :: real) < of_int (roundEven (a * 2 ^ 50))"
    by (simp add: pos_less_divide_eq)
  also have "\<dots> \<longleftrightarrow> (of_int (5 * 2 ^ 50) :: real) < of_int (roundEven (a * 2 ^ 50))"
    by simp
  also have "\<dots> \<longleftrightarrow> 5 * 2 ^ 50 < roundEven (a * 2 ^ 50)"
    by (simp only: of_int_less_iff)
  also have "\<dots> \<longleftrightarrow> of_int (5 * 2 ^ 50) + 1 / 2 < a * 2 ^ 50"
    by (rule roundEven_above_even) simp
  also have "\<dots> \<longleftrightarrow> 5 + 1 / 2 ^ 51 < a"
    by (simp add: mult.commute)
  finally show ?thesis by (simp add: u)
qed

lemma rounded_gap:
  assumes "0 < a"
  shows "5 < of_int (roundEven (a / ulp a)) * ulp a \<longleftrightarrow> 5 + 1 / 2 ^ 51 < a"
proof -
  consider "a < 4" | "4 \<le> a" "a < 8" | "8 \<le> a" by linarith
  then show ?thesis
  proof cases
    case 1
    then have "of_int (roundEven (a / ulp a)) * ulp a \<le> 4" using assms by (intro rounded_small)
    moreover have "\<not> 5 + 1 / 2 ^ 51 < a" using 1 by simp
    ultimately show ?thesis by simp
  next
    case 2
    then show ?thesis by (rule rounded_middle)
  next
    case 3
    then have "8 \<le> of_int (roundEven (a / ulp a)) * ulp a" by (rule rounded_large)
    moreover have "5 + 1 / 2 ^ 51 < a" using 3 by simp
    ultimately show ?thesis by simp
  qed
qed

lemma gap_rounded:
  "numGreater (numAbs (numSub (Finite b) (Finite a))) 5 \<longleftrightarrow> 5 + 1 / 2 ^ 51 < \<bar>b - a\<bar>"
proof (cases "b - a = 0")
  case True
  then show ?thesis by (simp add: roundDouble_def)
next
  case False
  define x where "x = b - a"
  define m where "m = of_int (roundEven (\<bar>x\<bar> / ulp \<bar>x\<bar>)) * ulp \<bar>x\<bar>"
  have x: "x \<noteq> 0" "0 < \<bar>x\<bar>" using False by (simp_all add: x_def)
  have "0 \<le> \<bar>x\<bar> / ulp \<bar>x\<bar>" using ulp_pos [of "\<bar>x\<bar>"] by simp
  then have "of_int 0 \<le> \<bar>x\<bar> / ulp \<bar>x\<bar>" by simp
  then have "0 \<le> roundEven (\<bar>x\<bar> / ulp \<bar>x\<bar>)" by (rule roundEven_ge)
  then have m0: "0 \<le> m" using ulp_pos [of "\<bar>x\<bar>"] by (simp add: m_def)
  have r: "roundDouble x =
    (if 2 ^ 1024 \<le> m then (if x < 0 then NegInfinity else PosInfinity) else Finite (sgn x * m))"
    using x by (simp add: roundDouble_def m_def Let_def)
  have "\<bar>sgn x * m\<bar> = m" using x m0 by (simp add: abs_mult)
  then have "numGreater (numAbs (roundDouble x)) 5 \<longleftrightarrow> 2 ^ 1024 \<le> m \<or> 5 < m"
    by (simp add: r)
  also have "\<dots> \<longleftrightarrow> 5 < m"
    by auto
  also have "\<dots> \<longleftrightarrow> 5 + 1 / 2 ^ 51 < \<bar>x\<bar>"
    unfolding m_def using x(2) by (rule rounded_gap)
  finally show ?thesis by (simp add: x_def)
qed

section \<open>Line reconstruction\<close>

lemma pageLines_Cons:
  "pageLines (a # r) =
     (case r of [] \<Rightarrow> [str a @ js '' '']
      | b # r' \<Rightarrow> if breakBetween a b then (str a @ js '' '') # pageLines r
                  else (str a @ js '' '' @ hd (pageLines r)) # tl (pageLines r))"
  by (cases r) simp_all

lemma pageLines_not_Nil: "items \<noteq> [] \<Longrightarrow> pageLines items \<noteq> []"
  by (induction items rule: pageLines.induct) simp_all

lemma foldl_itemStep:
  "lastY s = Some (y a) \<Longrightarrow>
   pageText (flushLine (foldl itemStep s items)) =
     pageText s @ concat (map emitLine
       (case items of [] \<Rightarrow> [line s]
        | b # r \<Rightarrow> if breakBetween a b then line s # pageLines items
                   else (line s @ hd (pageLines items)) # tl (pageLines items)))"
proof (induction items arbitrary: s a)
  case Nil
  then show ?case by (simp add: flushLine_def emitLine_def)
next
  case (Cons b r)
  have brk: "lineBreakDetected s b = breakBetween a b"
    using Cons.prems by (simp add: lineBreakDetected_def breakBetween_def)
  define s' where "s' = itemStep s b"
  have ly: "lastY s' = Some (y b)"
    by (simp add: s'_def itemStep_def Let_def)
  have ih: "pageText (flushLine (foldl itemStep s' r)) =
     pageText s' @ concat (map emitLine
       (case r of [] \<Rightarrow> [line s']
        | c # r' \<Rightarrow> if breakBetween b c then line s' # pageLines r
                   else (line s' @ hd (pageLines r)) # tl (pageLines r)))"
    using Cons.IH [OF ly] .
  show ?case
  proof (cases "breakBetween a b")
    case True
    have l: "line s' = str b @ js '' ''" and p: "pageText s' = pageText s @ emitLine (line s)"
      using True brk by (simp_all add: s'_def itemStep_def Let_def flushLine_def emitLine_def)
    have "(case r of [] \<Rightarrow> [line s']
        | c # r' \<Rightarrow> if breakBetween b c then line s' # pageLines r
                   else (line s' @ hd (pageLines r)) # tl (pageLines r)) = pageLines (b # r)"
      by (cases r) (simp_all add: l)
    then show ?thesis
      using ih True by (simp add: s'_def [symmetric] p)
  next
    case False
    have l: "line s' = line s @ str b @ js '' ''" and p: "pageText s' = pageText s"
      using False brk by (simp_all add: s'_def itemStep_def Let_def)
    have "(case r of [] \<Rightarrow> [line s']
        | c # r' \<Rightarrow> if breakBetween b c then line s' # pageLines r
                   else (line s' @ hd (pageLines r)) # tl (pageLines r)) =
          (line s @ hd (pageLines (b # r))) # tl (pageLines (b # r))"
      by (cases r) (simp_all add: l)
    then show ?thesis
      using ih False by (simp add: s'_def [symmetric] p)
  qed
qed

lemma extractPageText_lines: "extractPageText items = concat (map emitLine (pageLines items))"
proof (cases items)
  case Nil
  then show ?thesis by (simp add: extractPageText_def flushLine_def trim_def)
next
  case (Cons a r)
  define s where "s = itemStep \<lparr>lastY = None, line = [], pageText = []\<rparr> a"
  have s: "lastY s = Some (y a)" "line s = str a @ js '' ''" "pageText s = []"
    by (simp_all add: s_def itemStep_def lineBreakDetected_def Let_def)
  have "extractPageText items = pageText (flushLine (foldl itemStep s r))"
    by (simp add: extractPageText_def Cons s_def)
  also have "\<dots> = concat (map emitLine (pageLines (a # r)))"
    unfolding foldl_itemStep [OF s(1)] by (cases r) (simp_all add: s)
  finally show ?thesis by (simp add: Cons)
qed

lemma pageLines_break:
  "breakBetween a b \<Longrightarrow>
   pageLines (pre @ a # b # post) = pageLines (pre @ [a]) @ pageLines (b # post)"
proof (induction pre)
  case Nil
  then show ?case by simp
next
  case (Cons c pre)
  obtain d r where d: "pre @ [a] = d # r" by (cases pre) auto
  then have d2: "pre @ a # b # post = d # r @ b # post"
    by (cases pre) auto
  have ne: "pageLines (pre @ [a]) \<noteq> []" by (rule pageLines_not_Nil) simp
  show ?case
    using Cons ne by (simp add: d d2 pageLines_Cons [of c])
qed

lemma pageLines_merge:
  "\<not> breakBetween a b \<Longrightarrow>
   pageLines (pre @ a # b # post) =
     butlast (pageLines (pre @ [a])) @
     (last (pageLines (pre @ [a])) @ hd (pageLines (b # post))) # tl (pageLines (b # post))"
proof (induction pre)
  case Nil
  then show ?case by simp
next
  case (Cons c pre)
  obtain d r where d: "pre @ [a] = d # r" by (cases pre) auto
  then have d2: "pre @ a # b # post = d # r @ b # post"
    by (cases pre) auto
  have "pageLines (pre @ [a]) \<noteq> []" by (rule pageLines_not_Nil) simp
  then obtain q qs where q: "pageLines (d # r) = q # qs"
    unfolding d by (cases "pageLines (d # r)") auto
  have ih: "pageLines (d # r @ b # post) =
     butlast (q # qs) @ (last (q # qs) @ hd (pageLines (b # post))) # tl (pageLines (b # post))"
    using Cons.IH [OF Cons.prems] unfolding d d2 q .
  have l: "pageLines ((c # pre) @ a # b # post) =
    (if breakBetween c d then (str c @ js '' '') # pageLines (d # r @ b # post)
     else (str c @ js '' '' @ hd (pageLines (d # r @ b # post))) # tl (pageLines (d # r @ b # post)))"
    by (simp add: d2)
  have r: "pageLines ((c # pre) @ [a]) =
    (if breakBetween c d then (str c @ js '' '') # q # qs
     else (str c @ js '' '' @ q) # qs)"
    by (simp add: d q)
  show ?case
    unfolding l r ih by (cases "qs = []") simp_all
qed

lemma breakBetween_finite:
  "y a = Finite r1 \<Longrightarrow> y b = Finite r2 \<Longrightarrow>
   breakBetween a b \<longleftrightarrow> 5 + 1 / 2 ^ 51 < \<bar>r2 - r1\<bar>"
  unfolding breakBetween_def by (simp only: gap_rounded)

lemma extractPageText_break:
  "breakBetween a b \<Longrightarrow>
   extractPageText (pre @ a # b # post) = extractPageText (pre @ [a]) @ extractPageText (b # post)"
  by (simp add: extractPageText_lines pageLines_break)

text \<open>
  C2. The page's text is the text of its lines, each trimmed, followed by the paragraph
  break and left out when blank; the lines are cut between two consecutive fragments,
  anywhere in the page, exactly where the test between them holds. For finite positions
  the test holds exactly when the distance of the two positions is above \<open>5 + 2\<^sup>-\<^sup>5\<^sup>1\<close>:
  the code compares the difference rounded to a double, and a distance between \<open>5\<close> and
  \<open>5 + 2\<^sup>-\<^sup>5\<^sup>1\<close> rounds to \<open>5\<close>. So a distance of exactly 5 joins the two fragments on one
  line, and a distance of 5.01 or of 6 starts a new line.
\<close>

theorem gap_threshold:
  "extractPageText items = concat (map emitLine (pageLines items)) \<and>
   extractPageText [a, b] =
     (if breakBetween a b then emitLine (str a @ js '' '') @ emitLine (str b @ js '' '')
      else emitLine (str a @ js '' '' @ str b @ js '' '')) \<and>
   (breakBetween a b \<longrightarrow>
      pageLines (pre @ a # b # post) = pageLines (pre @ [a]) @ pageLines (b # post) \<and>
      extractPageText (pre @ a # b # post) =
        extractPageText (pre @ [a]) @ extractPageText (b # post)) \<and>
   (\<not> breakBetween a b \<longrightarrow>
      pageLines (pre @ a # b # post) =
        butlast (pageLines (pre @ [a])) @
        (last (pageLines (pre @ [a])) @ hd (pageLines (b # post))) # tl (pageLines (b # post))) \<and>
   (y a = Finite r1 \<and> y b = Finite r2 \<longrightarrow>
      breakBetween a b = (5 + 1 / 2 ^ 51 < \<bar>r2 - r1\<bar>) \<and>
      (\<bar>r2 - r1\<bar> = 5 \<longrightarrow> \<not> breakBetween a b))"
proof -
  have "extractPageText [a, b] =
     (if breakBetween a b then emitLine (str a @ js '' '') @ emitLine (str b @ js '' '')
      else emitLine (str a @ js '' '' @ str b @ js '' ''))"
    by (simp add: extractPageText_lines)
  moreover have "y a = Finite r1 \<and> y b = Finite r2 \<longrightarrow>
      breakBetween a b = (5 + 1 / 2 ^ 51 < \<bar>r2 - r1\<bar>) \<and>
      (\<bar>r2 - r1\<bar> = 5 \<longrightarrow> \<not> breakBetween a b)"
    by (simp add: breakBetween_finite)
  ultimately show ?thesis
    using extractPageText_lines [of items] pageLines_break [of a b pre post]
      pageLines_merge [of a b pre post] extractPageText_break [of a b pre post]
    by simp
qed

text \<open>
  The boundary tests: positions 100 and 105, 100 and 106, 100 and the double nearest to
  105.01; and a page of four fragments at 100, 105, 111 and 106.5.
\<close>

theorem gap_threshold_witness:
  "extractPageText [\<lparr>str = js ''A'', y = Finite 100\<rparr>, \<lparr>str = js ''B'', y = Finite 105\<rparr>]
     = js ''A B'' @ paragraphBreak \<and>
   extractPageText [\<lparr>str = js ''A'', y = Finite 100\<rparr>, \<lparr>str = js ''B'', y = Finite 106\<rparr>]
     = js ''A'' @ paragraphBreak @ js ''B'' @ paragraphBreak \<and>
   extractPageText [\<lparr>str = js ''A'', y = Finite 100\<rparr>,
                    \<lparr>str = js ''B'', y = Finite (7389421826096497 / 2 ^ 46)\<rparr>]
     = js ''A'' @ paragraphBreak @ js ''B'' @ paragraphBreak \<and>
   extractPageText [\<lparr>str = js ''A'', y = Finite 100\<rparr>, \<lparr>str = js ''B'', y = Finite 105\<rparr>,
                    \<lparr>str = js ''C'', y = Finite 111\<rparr>, \<lparr>str = js ''D'', y = Finite (213 / 2)\<rparr>]
     = js ''A B'' @ paragraphBreak @ js ''C D'' @ paragraphBreak"
  using
    gap_threshold [where a = "\<lparr>str = js ''A'', y = Finite 100\<rparr>"
      and b = "\<lparr>str = js ''B'', y = Finite 105\<rparr>" and ?r1.0 = 100 and ?r2.0 = 105
      and pre = "[]" and post = "[]" and items = "[]"]
    gap_threshold [where a = "\<lparr>str = js ''A'', y = Finite 100\<rparr>"
      and b = "\<lparr>str = js ''B'', y = Finite 106\<rparr>" and ?r1.0 = 100 and ?r2.0 = 106
      and pre = "[]" and post = "[]" and items = "[]"]
    gap_threshold [where a = "\<lparr>str = js ''A'', y = Finite 100\<rparr>"
      and b = "\<lparr>str = js ''B'', y = Finite (7389421826096497 / 2 ^ 46)\<rparr>"
      and ?r1.0 = 100 and ?r2.0 = "7389421826096497 / 2 ^ 46"
      and pre = "[]" and post = "[]" and items = "[]"]
    gap_threshold [where a = "\<lparr>str = js ''B'', y = Finite 105\<rparr>"
      and b = "\<lparr>str = js ''C'', y = Finite 111\<rparr>" and ?r1.0 = 105 and ?r2.0 = 111
      and pre = "[\<lparr>str = js ''A'', y = Finite 100\<rparr>]"
      and post = "[\<lparr>str = js ''D'', y = Finite (213 / 2)\<rparr>]" and items = "[]"]
    gap_threshold [where a = "\<lparr>str = js ''C'', y = Finite 111\<rparr>"
      and b = "\<lparr>str = js ''D'', y = Finite (213 / 2)\<rparr>" and ?r1.0 = 111 and ?r2.0 = "213 / 2"
      and pre = "[]" and post = "[]" and items = "[]"]
  by (simp add: emitLine_def char_eval)

text \<open>
  The doubles nearest to 0.7 and 5.7 are \<open>3152519739159347 / 2\<^sup>5\<^sup>2\<close> and
  \<open>6417629469002957 / 2\<^sup>5\<^sup>0\<close>. Their distance is \<open>5 + 2\<^sup>-\<^sup>5\<^sup>2\<close>, above 5, and the two
  fragments are on one line: the subtraction of the code returns the double 5.
\<close>

theorem rounded_gap_counterexample:
  "5 < \<bar>(6417629469002957 / 2 ^ 50 :: real) - 3152519739159347 / 2 ^ 52\<bar> \<and>
   extractPageText [\<lparr>str = js ''A'', y = Finite (3152519739159347 / 2 ^ 52)\<rparr>,
                    \<lparr>str = js ''B'', y = Finite (6417629469002957 / 2 ^ 50)\<rparr>]
     = js ''A B'' @ paragraphBreak"
proof -
  have "\<not> breakBetween \<lparr>str = js ''A'', y = Finite (3152519739159347 / 2 ^ 52)\<rparr>
                        \<lparr>str = js ''B'', y = Finite (6417629469002957 / 2 ^ 50)\<rparr>"
    by (simp add: breakBetween_finite
        [where ?r1.0 = "3152519739159347 / 2 ^ 52" and ?r2.0 = "6417629469002957 / 2 ^ 50"])
  then show ?thesis
    by (simp add: extractPageText_lines emitLine_def char_eval)
qed

section \<open>The page loop\<close>

declare pageLoop.simps [simp del]

lemma join_Cons: "join sep (p # ps) = (if ps = [] then p else p @ sep @ join sep ps)"
  by (cases ps) simp_all

lemma pageLoop_done: "length pdf < k \<Longrightarrow> pageLoop pdf k acc = acc"
  by (subst pageLoop.simps) simp

lemma pageLoop_step:
  "k \<le> length pdf \<Longrightarrow>
   pageLoop pdf k acc =
     pageLoop pdf (k + 1)
       (if k < length pdf then acc @ extractPageText (pdf ! (k - 1)) @ pageSeparator
        else acc @ extractPageText (pdf ! (k - 1)))"
  by (subst pageLoop.simps) (simp add: Let_def)

lemma pageLoop_join:
  "1 \<le> k \<Longrightarrow> k \<le> length pdf + 1 \<Longrightarrow>
   pageLoop pdf k acc = acc @ join pageSeparator (map extractPageText (drop (k - 1) pdf))"
proof (induction "length pdf + 1 - k" arbitrary: k acc)
  case 0
  then have "k = length pdf + 1" by simp
  then show ?case
    by (simp add: pageLoop_done)
next
  case (Suc n)
  then have le: "k \<le> length pdf" and pos: "0 < k" by simp_all
  from le pos have "drop (k - 1) pdf = pdf ! (k - 1) # drop (Suc (k - 1)) pdf"
    by (intro Cons_nth_drop_Suc [symmetric]) simp
  with pos have d: "drop (k - 1) pdf = pdf ! (k - 1) # drop k pdf" by simp
  have ih: "pageLoop pdf (k + 1) acc' =
    acc' @ join pageSeparator (map extractPageText (drop k pdf))" for acc'
    using Suc.hyps(1) [of "k + 1" acc'] Suc.hyps(2) le by simp
  show ?case
  proof (cases "k < length pdf")
    case True
    then have "drop k pdf \<noteq> []" by simp
    then have "join pageSeparator (map extractPageText (drop (k - 1) pdf)) =
      extractPageText (pdf ! (k - 1)) @ pageSeparator @
      join pageSeparator (map extractPageText (drop k pdf))"
      unfolding d by (simp add: join_Cons)
    moreover have "pageLoop pdf k acc =
      pageLoop pdf (k + 1) (acc @ extractPageText (pdf ! (k - 1)) @ pageSeparator)"
      using pageLoop_step [OF le, of acc] True by simp
    ultimately show ?thesis
      by (simp only: ih append_assoc)
  next
    case False
    with le have "drop k pdf = []" by simp
    then have "join pageSeparator (map extractPageText (drop (k - 1) pdf)) =
      extractPageText (pdf ! (k - 1))"
      unfolding d by simp
    moreover have "pageLoop pdf k acc =
      pageLoop pdf (k + 1) (acc @ extractPageText (pdf ! (k - 1)))"
      using pageLoop_step [OF le, of acc] False by simp
    moreover have "pageLoop pdf (k + 1) acc' = acc'" for acc'
      using False by (simp add: pageLoop_done)
    ultimately show ?thesis
      by simp
  qed
qed





section \<open>End to end\<close>

text \<open>
  C4. A one-page document with the fragment \<open>Chapter One\<close> at height 700 and the longer
  body line at height 650 becomes the heading \<open>## Chapter One\<close>, a blank line, and the body
  line.
\<close>

theorem chapter_one_scenario:
  "extractTextFromPDF
     [[\<lparr>str = js ''Chapter One'', y = Finite 700\<rparr>,
       \<lparr>str = js ''This is a longer line of body text that follows the title.'', y = Finite 650\<rparr>]]
   = Inr (js ''## Chapter One'' @ paragraphBreak @
          js ''This is a longer line of body text that follows the title.'')"
  by code_simp

section \<open>Code units\<close>

lemma lt_space: "isLineTerminator c \<Longrightarrow> isSpace c"
  by (simp add: isSpace_def)

lemma glyph_cases:
  "c \<in> set bulletGlyphs \<longleftrightarrow> c = 0x2022 \<or> c = 0x00B7 \<or> c = 0x25AA \<or> c = 0x25B8 \<or> c = 0x25A0"
  by (auto simp: bulletGlyphs_def)

lemma glyph_not_space: "c \<in> set bulletGlyphs \<Longrightarrow> \<not> isSpace c"
  by (auto simp: glyph_cases isSpace_def isWhiteSpace_def isLineTerminator_def)

lemma glyph_not_digit: "c \<in> set bulletGlyphs \<Longrightarrow> \<not> isDigit c"
  by (auto simp: glyph_cases isDigit_def)

lemma digit_not_space: "isDigit c \<Longrightarrow> \<not> isSpace c"
proof
  assume d: "isDigit c" and s: "isSpace c"
  from d have "0x30 \<le> c" "c \<le> 0x39" by (simp_all add: isDigit_def)
  moreover from s have "c \<le> 0x20 \<or> 0xA0 \<le> c"
    by (auto simp: isSpace_def isWhiteSpace_def isLineTerminator_def word_le_nat_alt)
  ultimately show False
    by (auto simp: word_le_nat_alt)
qed

lemma digit_not_glyph: "isDigit c \<Longrightarrow> c \<notin> set bulletGlyphs"
  using glyph_not_digit by blast

lemma dot_plain: "\<not> isSpace 0x002E" "\<not> isDigit 0x002E" "\<not> isLineTerminator 0x002E"
  "0x002E \<notin> set bulletGlyphs"
  by (simp_all add: isSpace_def isWhiteSpace_def isLineTerminator_def isDigit_def glyph_cases)

lemma hyphen_plain: "\<not> isSpace 0x002D" "\<not> isDigit 0x002D" "\<not> isLineTerminator 0x002D"
  "0x002D \<notin> set bulletGlyphs"
  by (simp_all add: isSpace_def isWhiteSpace_def isLineTerminator_def isDigit_def glyph_cases)

lemma blank_space: "isSpace 0x0020" "\<not> isLineTerminator 0x0020" "\<not> isDigit 0x0020"
  "0x0020 \<notin> set bulletGlyphs"
  by (simp_all add: isSpace_def isWhiteSpace_def isLineTerminator_def isDigit_def glyph_cases)

lemma newline_space: "isSpace 0x000A" "isLineTerminator 0x000A"
  by (simp_all add: isSpace_def isLineTerminator_def)

section \<open>The matcher\<close>

declare run.simps [simp del]

lemmas run_basic = run.simps(1-9)

lemma rep0_Nil:
  assumes "\<And>st. run ml a st = one P st"
  shows "run ml (Rep 0 a) (p, [], g) = [(p, [], g)]"
  by (simp add: run.simps(10) assms one_def)

lemma rep0_Cons:
  assumes "\<And>st. run ml a st = one P st"
  shows "run ml (Rep 0 a) (p, c # cs, g) =
    (if P c then run ml (Rep 0 a) (Some c, cs, g) @ [(p, c # cs, g)] else [(p, c # cs, g)])"
  by (subst run.simps(10)) (simp add: assms one_def)

lemma repS_Nil:
  assumes "\<And>st. run ml a st = one P st"
  shows "run ml (Rep (Suc n) a) (p, [], g) = []"
  by (simp add: run.simps(10) assms one_def)

lemma repS_Cons:
  assumes "\<And>st. run ml a st = one P st"
  shows "run ml (Rep (Suc n) a) (p, c # cs, g) =
    (if P c then run ml (Rep n a) (Some c, cs, g) else [])"
  by (subst run.simps(10)) (simp add: assms one_def)

lemma lastOpt_Nil [simp]: "lastOpt p [] = p"
  by (simp add: lastOpt_def)

lemma lastOpt_Cons [simp]: "lastOpt p (c # u) = lastOpt (Some c) u"
  by (simp add: lastOpt_def)

lemma lastOpt_append [simp]: "lastOpt p (u @ v) = lastOpt (lastOpt p u) v"
  by (simp add: lastOpt_def)

lemma lastOpt_Some: "u \<noteq> [] \<Longrightarrow> lastOpt p u = Some (last u)"
  by (simp add: lastOpt_def)

text \<open>A greedy run of one class, followed by something that cannot start inside the run:
  only the longest run is left.\<close>

lemma rep0_skip:
  assumes atom: "\<And>st. run ml a st = one P st"
    and F: "\<And>p' c cs' g'. P c \<Longrightarrow> F (p', c # cs', g') = []"
  shows "concat (map F (run ml (Rep 0 a) (p, cs, g))) =
    F (lastOpt p (takeWhile P cs), dropWhile P cs, g)"
proof (induction cs arbitrary: p)
  case Nil
  show ?case by (simp add: rep0_Nil [OF atom])
next
  case (Cons c cs)
  show ?case
    using Cons [of "Some c"] by (simp add: rep0_Cons [OF atom] F)
qed

lemma rep0_first:
  assumes atom: "\<And>st. run ml a st = one P st"
  shows "firstOf (run ml (Rep 0 a) (p, cs, g)) =
    Some (lastOpt p (takeWhile P cs), dropWhile P cs, g)"
proof (induction cs arbitrary: p)
  case Nil
  show ?case by (simp add: rep0_Nil [OF atom] firstOf_def)
next
  case (Cons c cs)
  show ?case
    using Cons [of "Some c"]
    by (auto simp: rep0_Cons [OF atom] firstOf_def split: list.splits)
qed

lemma firstOf_Nil [simp]: "firstOf [] = None"
  by (simp add: firstOf_def)

lemma firstOf_Cons [simp]: "firstOf (x # xs) = Some x"
  by (simp add: firstOf_def)

lemma firstOf_append:
  "firstOf (xs @ ys) = (case firstOf xs of Some r \<Rightarrow> Some r | None \<Rightarrow> firstOf ys)"
  by (cases xs) simp_all

lemma take_takeWhile: "take (length xs - length (dropWhile P xs)) xs = takeWhile P xs"
proof -
  have "length xs = length (takeWhile P xs) + length (dropWhile P xs)"
    by (metis length_append takeWhile_dropWhile_id)
  then have "length xs - length (dropWhile P xs) = length (takeWhile P xs)"
    by simp
  then show ?thesis
    by (simp add: takeWhile_eq_take [symmetric])
qed

lemma take_Suc_takeWhile:
  "take (Suc (length xs) - length (dropWhile P xs)) (c # xs) = c # takeWhile P xs"
  using take_takeWhile [of xs P] by (simp add: Suc_diff_le length_dropWhile_le)

lemma eol_ok:
  "cs = [] \<or> isLineTerminator (hd cs) \<Longrightarrow> run True Eol (q, cs, g) = [(q, cs, g)]"
  by (cases cs) (auto simp: run_basic)

lemma afterLine_start: "afterLine cs = [] \<or> isLineTerminator (hd (afterLine cs))"
  unfolding afterLine_def
  using hd_dropWhile [of "\<lambda>c. \<not> isLineTerminator c" cs] by blast

lemma eol_dropWhile:
  "run True Eol (q, dropWhile (\<lambda>c. \<not> isLineTerminator c) cs, g) =
    [(q, dropWhile (\<lambda>c. \<not> isLineTerminator c) cs, g)]"
  using afterLine_start [of cs] unfolding afterLine_def by (rule eol_ok)

lemma run_capture:
  "run True (Seq (Group i (Plus Dot)) Eol) (p, cs, g) =
    (case captureLine cs of None \<Rightarrow> []
     | Some (cap, rest) \<Rightarrow> [(Some (last cap), rest, g(i \<mapsto> cap))])"
proof (cases cs)
  case Nil
  then show ?thesis
    by (simp add: run_basic repS_Nil [where P = "\<lambda>c. \<not> isLineTerminator c"]
        captureLine_def lineOf_def)
next
  case (Cons c cs')
  show ?thesis
  proof (cases "isLineTerminator c")
    case True
    with Cons show ?thesis
      by (simp add: run_basic repS_Cons [where P = "\<lambda>c. \<not> isLineTerminator c"]
          captureLine_def lineOf_def)
  next
    case False
    let ?upd = "\<lambda>(p', cs', g'). (p', cs', g'(i \<mapsto> take (length cs - length cs') cs))"
    let ?F = "\<lambda>st. run True Eol (?upd st)"
    have F: "?F (p', x # xs, g') = []" if "\<not> isLineTerminator x" for p' x xs g'
      using that by (simp add: run_basic)
    have "run True (Seq (Group i (Plus Dot)) Eol) (p, cs, g) =
      concat (map ?F (run True (Rep 0 Dot) (Some c, cs', g)))"
      using Cons False
      by (simp add: run_basic repS_Cons [where P = "\<lambda>c. \<not> isLineTerminator c"] comp_def)
    also have "\<dots> = ?F (lastOpt (Some c) (takeWhile (\<lambda>c. \<not> isLineTerminator c) cs'),
        dropWhile (\<lambda>c. \<not> isLineTerminator c) cs', g)"
      by (rule rep0_skip [where P = "\<lambda>c. \<not> isLineTerminator c"])
         (simp_all add: F run_basic)
    also have "\<dots> = [(Some (last (c # takeWhile (\<lambda>c. \<not> isLineTerminator c) cs')),
        dropWhile (\<lambda>c. \<not> isLineTerminator c) cs',
        g(i \<mapsto> c # takeWhile (\<lambda>c. \<not> isLineTerminator c) cs'))]"
      using Cons by (simp only: eol_dropWhile prod.case) (simp add: take_Suc_takeWhile lastOpt_def)
    finally show ?thesis
      using Cons False by (simp add: captureLine_def lineOf_def afterLine_def)
  qed
qed

lemma firstOf_capture:
  "firstOf (run True (Seq (Group i (Plus Dot)) Eol) (p, cs, g)) =
    map_option (\<lambda>(cap, rest). (Some (last cap), rest, g(i \<mapsto> cap))) (captureLine cs)"
  by (simp add: run_capture split: option.splits)

lemma run_spaces_capture:
  "firstOf (concat (map (run True (Seq (Group i (Plus Dot)) Eol))
      (run True (Rep 0 Space) (p, cs, g)))) =
    map_option (\<lambda>(cap, rest). (Some (last cap), rest, g(i \<mapsto> cap))) (spacesThenLine cs)"
proof (induction cs arbitrary: p)
  case Nil
  show ?case
    by (simp add: rep0_Nil [where P = isSpace] run_basic(4) firstOf_capture captureLine_def
        lineOf_def)
next
  case (Cons c cs)
  show ?case
  proof (cases "isSpace c")
    case False
    then show ?thesis
      by (simp add: rep0_Cons [where P = isSpace] run_basic(4) firstOf_capture fun_upd_def)
  next
    case True
    show ?thesis
    proof (cases "spacesThenLine cs")
      case None
      with True Cons [of "Some c"] show ?thesis
        by (simp add: rep0_Cons [where P = isSpace] run_basic(4) firstOf_append firstOf_capture
            fun_upd_def)
    next
      case (Some r)
      with True Cons [of "Some c"] show ?thesis
        by (simp add: rep0_Cons [where P = isSpace] run_basic(4) firstOf_append fun_upd_def)
    qed
  qed
qed

lemma run_Seq_Plus:
  assumes "\<And>st. run ml a st = one P st"
  shows "run ml (Seq (Plus a) r) (p, cs, g) =
    (case cs of [] \<Rightarrow> []
     | c # cs' \<Rightarrow> if P c then concat (map (run ml r) (run ml (Rep 0 a) (Some c, cs', g))) else [])"
  by (cases cs) (simp_all add: run_basic(8) repS_Nil [OF assms] repS_Cons [OF assms])

lemma run_itemText:
  "firstOf (run True (Seq (Plus Space) (Seq (Group i (Plus Dot)) Eol)) (p, cs, g)) =
    map_option (\<lambda>(cap, rest). (Some (last cap), rest, g(i \<mapsto> cap))) (itemText cs)"
  by (cases cs)
     (simp_all add: run_Seq_Plus [where P = isSpace] run_basic(4) run_spaces_capture itemText_def)

lemma run_Seq_Bol:
  "run True (Seq Bol r) (p, cs, g) = (if bol p then run True r (p, cs, g) else [])"
  by (simp add: run_basic bol_def split: option.splits)

lemma run_Seq_Group_OneOf:
  "run ml (Seq (Group i (OneOf as)) r) (p, cs, g) =
    (case cs of [] \<Rightarrow> []
     | c # cs' \<Rightarrow> if c \<in> set as then run ml r (Some c, cs', g(i \<mapsto> [c])) else [])"
  by (cases cs) (simp_all add: run_basic one_def)

lemma run_Seq_Lit:
  "run ml (Seq (Lit a) r) (p, cs, g) =
    (case cs of [] \<Rightarrow> [] | c # cs' \<Rightarrow> if c = a then run ml r (Some c, cs', g) else [])"
  by (cases cs) (simp_all add: run_basic one_def)

text \<open>The bullet pattern computes \<open>bulletMatch\<close>.\<close>

lemma matchAt_reBullet:
  "matchAt True reBullet p cs =
    map_option (\<lambda>(cap, rest). (Some (last cap), rest, [1 \<mapsto> [hd cs], 2 \<mapsto> cap]))
      (bulletMatch p cs)"
  by (cases cs)
     (simp_all add: matchAt_def reBullet_def run_Seq_Bol run_Seq_Group_OneOf run_itemText
       bulletMatch_def)

lemma run_Seq_Group_Plus:
  assumes atom: "\<And>st. run ml a st = one P st"
    and F: "\<And>p' c cs' g'. P c \<Longrightarrow> run ml r (p', c # cs', g') = []"
  shows "run ml (Seq (Group i (Plus a)) r) (p, cs, g) =
    (if takeWhile P cs = [] then []
     else run ml r (Some (last (takeWhile P cs)), dropWhile P cs, g(i \<mapsto> takeWhile P cs)))"
proof (cases cs)
  case Nil
  then show ?thesis
    by (simp add: run_basic repS_Nil [OF atom])
next
  case (Cons c cs')
  show ?thesis
  proof (cases "P c")
    case False
    with Cons show ?thesis
      by (simp add: run_basic repS_Cons [OF atom])
  next
    case True
    let ?upd = "\<lambda>(p', cs', g'). (p', cs', g'(i \<mapsto> take (length cs - length cs') cs))"
    let ?F = "\<lambda>st. run ml r (?upd st)"
    have "run ml (Seq (Group i (Plus a)) r) (p, cs, g) =
      concat (map ?F (run ml (Rep 0 a) (Some c, cs', g)))"
      using Cons True by (simp add: run_basic repS_Cons [OF atom] comp_def)
    also have "\<dots> = ?F (lastOpt (Some c) (takeWhile P cs'), dropWhile P cs', g)"
      by (rule rep0_skip [OF atom]) (simp add: F)
    also have "\<dots> = run ml r (Some (last (c # takeWhile P cs')), dropWhile P cs',
        g(i \<mapsto> c # takeWhile P cs'))"
      using Cons by (simp add: take_Suc_takeWhile lastOpt_def)
    finally show ?thesis
      using Cons True by simp
  qed
qed

text \<open>The numbered pattern computes \<open>orderedMatch\<close>.\<close>

lemma matchAt_reOrdered:
  "matchAt True reOrdered p cs =
    map_option (\<lambda>(ds, cap, rest). (Some (last cap), rest, [1 \<mapsto> ds, 2 \<mapsto> cap]))
      (orderedMatch p cs)"
proof -
  let ?r = "Seq (Lit 0x002E) (Seq (Plus Space) (Seq (Group 2 (Plus Dot)) Eol))"
  have F: "run True ?r (p', c # cs', g') = []" if "isDigit c" for p' c cs' g'
    using that dot_plain(2) by (auto simp: run_Seq_Lit)
  have "run True (Seq (Group 1 (Plus Digit)) ?r) (p, cs, g) =
    (if takeWhile isDigit cs = [] then []
     else run True ?r (Some (last (takeWhile isDigit cs)), dropWhile isDigit cs,
            g(1 \<mapsto> takeWhile isDigit cs)))" for g
    by (rule run_Seq_Group_Plus [where P = isDigit]) (simp_all add: run_basic(3) F)
  then have run: "run True reOrdered (p, cs, Map.empty) =
    (if bol p \<and> takeWhile isDigit cs \<noteq> []
     then run True ?r (Some (last (takeWhile isDigit cs)), dropWhile isDigit cs,
            [1 \<mapsto> takeWhile isDigit cs])
     else [])"
    by (simp add: reOrdered_def run_Seq_Bol)
  show ?thesis
  proof (cases "bol p \<and> takeWhile isDigit cs \<noteq> []")
    case False
    then show ?thesis
      by (auto simp: matchAt_def run orderedMatch_def)
  next
    case True
    show ?thesis
    proof (cases "dropWhile isDigit cs")
      case Nil
      with True show ?thesis
        by (simp add: matchAt_def run orderedMatch_def run_Seq_Lit del: dropWhile_eq_Nil_conv)
    next
      case (Cons d cs')
      show ?thesis
      proof (cases "d = 0x002E")
        case False
        with True Cons show ?thesis
          by (simp add: matchAt_def run orderedMatch_def run_Seq_Lit)
      next
        case dot: True
        with True Cons show ?thesis
          by (simp add: matchAt_def run orderedMatch_def run_Seq_Lit run_itemText
              option.map_comp comp_def case_prod_unfold)
      qed
    qed
  qed
qed

text \<open>The blank-line pattern computes \<open>blankLinesMatch\<close>.\<close>

lemma last_takeWhile: "takeWhile P xs \<noteq> [] \<Longrightarrow> P (last (takeWhile P xs))"
  by (meson last_in_set set_takeWhileD)

lemma matchAt_reBlankLines:
  "matchAt ml reBlankLines p cs =
    map_option (\<lambda>rest. (Some 0x000A, rest, Map.empty)) (blankLinesMatch cs)"
proof -
  have atom: "run ml (Lit 0x000A) st = one (\<lambda>c. c = 0x000A) st" for st
    by (simp add: run_basic)
  have three: "(3::nat) = Suc (Suc (Suc 0))"
    by simp
  show ?thesis
    unfolding matchAt_def reBlankLines_def blankLinesMatch_def three
    using last_takeWhile [where P = "\<lambda>c. c = (0x000A :: cu)"]
    by (auto simp: repS_Nil [OF atom] repS_Cons [OF atom] rep0_first [OF atom] lastOpt_def
        split: list.splits)
qed

section \<open>What a match looks like\<close>

lemma lineOf_afterLine: "lineOf cs @ afterLine cs = cs"
  by (simp add: lineOf_def afterLine_def)

lemma lineOf_plain: "c \<in> set (lineOf cs) \<Longrightarrow> \<not> isLineTerminator c"
  unfolding lineOf_def by (auto dest: set_takeWhileD)

lemma captureLine_Some:
  assumes "captureLine cs = Some (cap, rest)"
  shows "cs = cap @ rest" "cap \<noteq> []" "\<forall>c\<in>set cap. \<not> isLineTerminator c"
    "rest = [] \<or> isLineTerminator (hd rest)" "cap = lineOf cs" "rest = afterLine cs"
proof -
  from assms show c: "cap = lineOf cs" and r: "rest = afterLine cs" and "cap \<noteq> []"
    by (auto simp: captureLine_def split: if_splits)
  show "cs = cap @ rest"
    unfolding c r by (simp add: lineOf_afterLine)
  show "\<forall>c\<in>set cap. \<not> isLineTerminator c"
    unfolding c using lineOf_plain by blast
  show "rest = [] \<or> isLineTerminator (hd rest)"
    unfolding r by (rule afterLine_start)
qed

lemma spacesThenLine_None: "spacesThenLine cs = None \<longleftrightarrow> (\<forall>c\<in>set cs. isLineTerminator c)"
proof (induction cs)
  case Nil
  show ?case by simp
next
  case (Cons c cs)
  have "captureLine (c # cs) = None \<longleftrightarrow> isLineTerminator c"
    by (simp add: captureLine_def lineOf_def)
  with Cons show ?case
    by (auto simp: lt_space split: option.splits)
qed

lemma spacesThenLine_Some:
  assumes "spacesThenLine cs = Some (cap, rest)"
  shows "\<exists>ws. cs = ws @ cap @ rest \<and> (\<forall>c\<in>set ws. isSpace c) \<and> cap \<noteq> [] \<and>
    (\<forall>c\<in>set cap. \<not> isLineTerminator c) \<and> (rest = [] \<or> isLineTerminator (hd rest)) \<and>
    (isSpace (hd cap) \<longrightarrow> length cap = 1 \<and> (\<forall>c\<in>set rest. isLineTerminator c))"
  using assms
proof (induction cs)
  case Nil
  then show ?case by simp
next
  case (Cons c cs)
  show ?case
  proof (cases "isSpace c \<and> spacesThenLine cs \<noteq> None")
    case True
    with Cons.prems have "spacesThenLine cs = Some (cap, rest)"
      by (auto split: option.splits)
    from Cons.IH [OF this] obtain ws where
      "cs = ws @ cap @ rest \<and> (\<forall>c\<in>set ws. isSpace c) \<and> cap \<noteq> [] \<and>
       (\<forall>c\<in>set cap. \<not> isLineTerminator c) \<and> (rest = [] \<or> isLineTerminator (hd rest)) \<and>
       (isSpace (hd cap) \<longrightarrow> length cap = 1 \<and> (\<forall>c\<in>set rest. isLineTerminator c))"
      by blast
    with True show ?thesis
      by (intro exI [where x = "c # ws"]) simp
  next
    case False
    with Cons.prems have cl: "captureLine (c # cs) = Some (cap, rest)"
      by (auto split: option.splits if_splits)
    note f = captureLine_Some [OF cl]
    have "length cap = 1 \<and> (\<forall>c\<in>set rest. isLineTerminator c)" if sp: "isSpace (hd cap)"
    proof -
      from f(1,2) have hd: "hd cap = c" by (cases cap) auto
      with sp False have "spacesThenLine cs = None"
        by (cases "spacesThenLine cs") auto
      then have all: "\<forall>x\<in>set cs. isLineTerminator x"
        by (simp add: spacesThenLine_None)
      then have "lineOf cs = []"
        by (cases cs) (simp_all add: lineOf_def)
      moreover from f(5) f(2) have "cap = c # lineOf cs"
        by (auto simp: lineOf_def split: if_splits)
      ultimately have "cap = [c]" by simp
      with f(1) all show ?thesis by simp
    qed
    with f show ?thesis
      by (intro exI [where x = "[]"]) simp
  qed
qed

lemma itemText_Some:
  assumes "itemText cs = Some (cap, rest)"
  shows "\<exists>ws. cs = ws @ cap @ rest \<and> ws \<noteq> [] \<and> (\<forall>c\<in>set ws. isSpace c) \<and> cap \<noteq> [] \<and>
    (\<forall>c\<in>set cap. \<not> isLineTerminator c) \<and> (rest = [] \<or> isLineTerminator (hd rest)) \<and>
    (isSpace (hd cap) \<longrightarrow> length cap = 1 \<and> (\<forall>c\<in>set rest. isLineTerminator c))"
proof -
  from assms obtain c cs' where cs: "cs = c # cs'" and c: "isSpace c"
    and s: "spacesThenLine cs' = Some (cap, rest)"
    by (auto simp: itemText_def split: list.splits if_splits)
  from spacesThenLine_Some [OF s] obtain ws where
    "cs' = ws @ cap @ rest \<and> (\<forall>c\<in>set ws. isSpace c) \<and> cap \<noteq> [] \<and>
     (\<forall>c\<in>set cap. \<not> isLineTerminator c) \<and> (rest = [] \<or> isLineTerminator (hd rest)) \<and>
     (isSpace (hd cap) \<longrightarrow> length cap = 1 \<and> (\<forall>c\<in>set rest. isLineTerminator c))"
    by blast
  with cs c show ?thesis
    by (intro exI [where x = "c # ws"]) simp
qed

lemma itemText_shorter: "itemText cs = Some (cap, rest) \<Longrightarrow> length rest < length cs"
  by (drule itemText_Some) auto

lemma itemText_None:
  "itemText cs = None \<longleftrightarrow> cs = [] \<or> \<not> isSpace (hd cs) \<or> (\<forall>c\<in>set (tl cs). isLineTerminator c)"
  by (cases cs) (auto simp: itemText_def spacesThenLine_None)

text \<open>Spaces before text: the whole run of spaces is skipped.\<close>

lemma spacesThenLine_text:
  "\<forall>c\<in>set ws. isSpace c \<Longrightarrow> \<not> isSpace x \<Longrightarrow>
   spacesThenLine (ws @ x # r) = Some (lineOf (x # r), afterLine (x # r))"
proof (induction ws)
  case Nil
  then have "\<not> isLineTerminator x" using lt_space by blast
  with Nil show ?case
    by (simp add: captureLine_def lineOf_def afterLine_def)
next
  case (Cons w ws)
  then show ?case by simp
qed

text \<open>Spaces up to the end of the input: the match backs up to the last space that is not
  a line terminator, which alone is captured.\<close>

lemma spacesThenLine_back:
  "\<forall>c\<in>set ws. isSpace c \<Longrightarrow> isSpace c \<Longrightarrow> \<not> isLineTerminator c \<Longrightarrow>
   \<forall>x\<in>set b. isLineTerminator x \<Longrightarrow> spacesThenLine (ws @ c # b) = Some ([c], b)"
proof (induction ws)
  case Nil
  then have "spacesThenLine b = None"
    by (simp add: spacesThenLine_None)
  moreover from Nil have "lineOf b = []" "afterLine b = b"
    by (cases b; simp add: lineOf_def afterLine_def)+
  ultimately show ?case
    using Nil by (simp add: captureLine_def lineOf_def afterLine_def)
next
  case (Cons w ws)
  then show ?case by simp
qed

section \<open>The replacements as recursions\<close>

declare replaceFrom.simps [simp del]

lemma bulletMatch_Some:
  assumes "bulletMatch p cs = Some (cap, rest)"
  shows "bol p \<and> (\<exists>b ws. cs = b # ws @ cap @ rest \<and> b \<in> set bulletGlyphs \<and> ws \<noteq> [] \<and>
    (\<forall>c\<in>set ws. isSpace c) \<and> cap \<noteq> [] \<and> (\<forall>c\<in>set cap. \<not> isLineTerminator c) \<and>
    (rest = [] \<or> isLineTerminator (hd rest)) \<and>
    (isSpace (hd cap) \<longrightarrow> length cap = 1 \<and> (\<forall>c\<in>set rest. isLineTerminator c)))"
proof -
  from assms obtain b cs' where cs: "cs = b # cs'" and b: "bol p" "b \<in> set bulletGlyphs"
    and t: "itemText cs' = Some (cap, rest)"
    by (auto simp: bulletMatch_def split: list.splits if_splits)
  from itemText_Some [OF t] cs b show ?thesis
    by auto
qed

lemma bulletMatch_shorter: "bulletMatch p cs = Some (cap, rest) \<Longrightarrow> length rest < length cs"
  by (drule bulletMatch_Some) auto

lemma orderedMatch_Some:
  assumes "orderedMatch p cs = Some (ds, cap, rest)"
  shows "bol p \<and> (\<exists>ws. cs = ds @ 0x002E # ws @ cap @ rest \<and> ds \<noteq> [] \<and>
    (\<forall>c\<in>set ds. isDigit c) \<and> ws \<noteq> [] \<and>
    (\<forall>c\<in>set ws. isSpace c) \<and> cap \<noteq> [] \<and> (\<forall>c\<in>set cap. \<not> isLineTerminator c) \<and>
    (rest = [] \<or> isLineTerminator (hd rest)) \<and>
    (isSpace (hd cap) \<longrightarrow> length cap = 1 \<and> (\<forall>c\<in>set rest. isLineTerminator c)))"
proof -
  from assms obtain cs' where b: "bol p" and ds: "takeWhile isDigit cs = ds" "ds \<noteq> []"
    and d: "dropWhile isDigit cs = 0x002E # cs'" and t: "itemText cs' = Some (cap, rest)"
    by (auto simp: orderedMatch_def split: list.splits if_splits)
  have "cs = ds @ 0x002E # cs'"
    using takeWhile_dropWhile_id [of isDigit cs] ds d by simp
  moreover have "\<forall>c\<in>set ds. isDigit c"
    using ds(1) by (auto dest: set_takeWhileD)
  ultimately show ?thesis
    using itemText_Some [OF t] b ds by auto
qed

lemma orderedMatch_shorter:
  "orderedMatch p cs = Some (ds, cap, rest) \<Longrightarrow> length rest < length cs"
  by (drule orderedMatch_Some) auto

lemma blankLinesMatch_shorter: "blankLinesMatch cs = Some rest \<Longrightarrow> length rest < length cs"
proof -
  have "length (dropWhile P xs) < Suc (Suc (Suc (length xs)))" for P and xs :: jsstring
    using length_dropWhile_le [of P xs] by simp
  then show "blankLinesMatch cs = Some rest \<Longrightarrow> length rest < length cs"
    by (auto simp: blankLinesMatch_def split: list.splits if_splits)
qed

lemma bulletsFrom_Nil [simp]: "bulletsFrom p [] = []"
  by (simp add: bulletsFrom_def replaceFrom.simps matchAt_reBullet bulletMatch_def)

lemma bulletsFrom_Cons:
  "bulletsFrom p (c # cs) =
    (case bulletMatch p (c # cs) of
       None \<Rightarrow> c # bulletsFrom (Some c) cs
     | Some (cap, rest) \<Rightarrow> js ''- '' @ cap @ bulletsFrom (Some (last cap)) rest)"
proof (cases "bulletMatch p (c # cs)")
  case None
  then show ?thesis
    by (simp add: bulletsFrom_def replaceFrom.simps matchAt_reBullet)
next
  case (Some r)
  obtain cap rest where r: "r = (cap, rest)" by (cases r)
  from Some r bulletMatch_shorter [of p "c # cs" cap rest] show ?thesis
    by (simp add: bulletsFrom_def replaceFrom.simps matchAt_reBullet)
qed

lemma numberedFrom_Nil [simp]: "numberedFrom p [] = []"
  by (simp add: numberedFrom_def replaceFrom.simps matchAt_reOrdered orderedMatch_def)

lemma numberedFrom_Cons:
  "numberedFrom p (c # cs) =
    (case orderedMatch p (c # cs) of
       None \<Rightarrow> c # numberedFrom (Some c) cs
     | Some (ds, cap, rest) \<Rightarrow> ds @ js ''. '' @ cap @ numberedFrom (Some (last cap)) rest)"
proof (cases "orderedMatch p (c # cs)")
  case None
  then show ?thesis
    by (simp add: numberedFrom_def replaceFrom.simps matchAt_reOrdered)
next
  case (Some r)
  obtain ds cap rest where r: "r = (ds, cap, rest)" by (cases r)
  from Some r orderedMatch_shorter [of p "c # cs" ds cap rest] show ?thesis
    by (simp add: numberedFrom_def replaceFrom.simps matchAt_reOrdered)
qed

lemma blankLinesFrom_Nil [simp]: "blankLinesFrom p [] = []"
  by (simp add: blankLinesFrom_def replaceFrom.simps matchAt_reBlankLines blankLinesMatch_def)

lemma blankLinesFrom_Cons:
  "blankLinesFrom p (c # cs) =
    (case blankLinesMatch (c # cs) of
       None \<Rightarrow> c # blankLinesFrom (Some c) cs
     | Some rest \<Rightarrow> paragraphBreak @ blankLinesFrom (Some 0x000A) rest)"
proof (cases "blankLinesMatch (c # cs)")
  case None
  then show ?thesis
    by (simp add: blankLinesFrom_def replaceFrom.simps matchAt_reBlankLines)
next
  case (Some rest)
  with blankLinesMatch_shorter [of "c # cs" rest] show ?thesis
    by (simp add: blankLinesFrom_def replaceFrom.simps matchAt_reBlankLines)
qed

lemma formatBullets_eq: "formatBullets s = bulletsFrom None s"
  by (simp add: formatBullets_def replace_def bulletsFrom_def)

lemma formatNumbered_eq: "formatNumbered s = numberedFrom None s"
  by (simp add: formatNumbered_def replace_def numberedFrom_def)

lemma cleanBlankLines_eq: "cleanBlankLines s = blankLinesFrom None s"
  by (simp add: cleanBlankLines_def replace_def blankLinesFrom_def)

section \<open>The heading rule\<close>

lemma search_Bol_later: "\<not> search False (Seq Bol r) (Some c) cs"
  by (induction cs arbitrary: c) (simp_all add: matchAt_def run_basic)

lemma match_Bol:
  "match False (Seq Bol r) s \<longleftrightarrow> run False r (None, s, Map.empty) \<noteq> []"
  by (cases s) (auto simp: match_def matchAt_def run_basic search_Bol_later firstOf_def
      split: list.splits)

lemma match_reListMarker: "match False reListMarker t \<longleftrightarrow> startsWithMarker t"
  by (cases t)
     (auto simp: reListMarker_def match_Bol run_basic one_def startsWithMarker_def
       bulletGlyphs_def)

lemma match_reNumbered: "match False reNumbered t \<longleftrightarrow> startsNumbered t"
proof (cases t)
  case Nil
  then show ?thesis
    by (simp add: reNumbered_def match_Bol run_Seq_Plus [where P = isDigit] run_basic(3)
        startsNumbered_def)
next
  case (Cons c cs)
  have F: "run False (Lit 0x002E) (p', d # cs', g') = []" if "isDigit d" for p' d cs' g'
    using that dot_plain(2) by (auto simp: run_basic one_def)
  have "concat (map (run False (Lit 0x002E)) (run False (Rep 0 Digit) (Some c, cs, Map.empty)))
    = run False (Lit 0x002E)
        (lastOpt (Some c) (takeWhile isDigit cs), dropWhile isDigit cs, Map.empty)"
    by (rule rep0_skip [where P = isDigit]) (simp_all add: run_basic(3) F)
  then have "match False reNumbered t \<longleftrightarrow>
    isDigit c \<and> run False (Lit 0x002E)
        (lastOpt (Some c) (takeWhile isDigit cs), dropWhile isDigit cs, Map.empty) \<noteq> []"
    using Cons
    by (simp add: reNumbered_def match_Bol run_Seq_Plus [where P = isDigit] run_basic(3))
  also have "\<dots> \<longleftrightarrow> isDigit c \<and> (case dropWhile isDigit cs of [] \<Rightarrow> False | d # _ \<Rightarrow> d = 0x002E)"
    by (cases "dropWhile isDigit cs")
       (simp_all add: run_basic(1) one_def del: dropWhile_eq_Nil_conv)
  also have "\<dots> \<longleftrightarrow> startsNumbered t"
    using Cons by (cases "isDigit c") (simp_all add: startsNumbered_def)
  finally show ?thesis .
qed

lemma formatParagraph_eq:
  assumes "idx < length arr"
  shows "formatParagraph arr idx =
    Inr (if headingBySpec arr idx then js ''## '' @ trim (arr ! idx) else trim (arr ! idx))"
proof -
  have "int idx < int (length arr) - 1 \<longleftrightarrow> idx + 1 < length arr"
    by auto
  then show ?thesis
    using assms
    by (auto simp: formatParagraph_def element_def Let_def headingBySpec_def match_reNumbered
        match_reListMarker)
qed

lemma collect_map:
  "(\<And>x. x \<in> set xs \<Longrightarrow> f x = Inr (h x)) \<Longrightarrow> collect (map f xs) = Inr (map h xs)"
  by (induction xs) auto

lemma formattedParagraphs_eq:
  "formattedParagraphs arr =
    Inr (map (\<lambda>i. if headingBySpec arr i then js ''## '' @ trim (arr ! i) else trim (arr ! i))
          [0..<length arr])"
  unfolding formattedParagraphs_def
  by (rule collect_map) (simp add: formatParagraph_eq)

section \<open>No failure\<close>

lemma extractPageText_Nil: "extractPageText [] = []"
  by (simp add: extractPageText_def flushLine_def trim_def)

lemma formatAsMarkdown_Inr:
  "formatAsMarkdown text =
    Inr (trim (cleanBlankLines (formatNumbered (formatBullets (join paragraphBreak
      (map (\<lambda>i. if headingBySpec (paragraphs text) i
                 then js ''## '' @ trim (paragraphs text ! i) else trim (paragraphs text ! i))
         [0..<length (paragraphs text)]))))))"
  by (simp add: formatAsMarkdown_def formattedParagraphs_eq)

text \<open>
  C9. \<open>formatAsMarkdown\<close> returns a string for every input: the only operation in it that
  can throw, the read of the next paragraph's length, is reached only when there is a next
  paragraph. \<open>extractPageText\<close> has no operation that can throw on items with a string and
  a number; on no items it returns the empty string. So a document of any pages converts
  without an error.
\<close>

theorem never_throws:
  "extractPageText [] = [] \<and> (\<exists>md. formatAsMarkdown text = Inr md) \<and>
   (\<exists>md. extractTextFromPDF pdf = Inr md)"
  by (simp add: extractPageText_Nil formatAsMarkdown_Inr extractTextFromPDF_def)

section \<open>Blank input\<close>

lemma splitOn_set: "p \<in> set (splitOn sep s) \<Longrightarrow> set p \<subseteq> set s"
proof (induction sep s arbitrary: p rule: splitOn.induct)
  case (1 sep)
  then show ?case by simp
next
  case (2 sep c cs)
  show ?case
  proof (cases "sep \<noteq> [] \<and> take (length sep) (c # cs) = sep")
    case True
    with "2.prems" have "p = [] \<or> p \<in> set (splitOn sep (drop (length sep) (c # cs)))"
      by auto
    then show ?thesis
    proof
      assume "p = []"
      then show ?thesis by simp
    next
      assume "p \<in> set (splitOn sep (drop (length sep) (c # cs)))"
      from "2.IH"(1) [OF True this] have "set p \<subseteq> set (drop (length sep) (c # cs))" .
      also have "\<dots> \<subseteq> set (c # cs)" by (rule set_drop_subset)
      finally show ?thesis .
    qed
  next
    case False
    show ?thesis
    proof (cases "splitOn sep cs")
      case Nil
      with False "2.prems" show ?thesis by auto
    next
      case (Cons q qs)
      with False "2.prems" have "p = c # q \<or> p \<in> set qs" by auto
      then show ?thesis
        using "2.IH"(2) [OF False, of q] "2.IH"(2) [OF False, of p] Cons by auto
    qed
  qed
qed

lemma trim_blank: "\<forall>c\<in>set s. isSpace c \<Longrightarrow> trim s = []"
proof -
  assume "\<forall>c\<in>set s. isSpace c"
  then have d: "dropWhile isSpace s = []" by simp
  show ?thesis unfolding trim_def d by simp
qed

lemma paragraphs_blank: "\<forall>c\<in>set s. isSpace c \<Longrightarrow> paragraphs s = []"
proof -
  assume all: "\<forall>c\<in>set s. isSpace c"
  have "trim p = []" if "p \<in> set (splitOn paragraphBreak s)" for p
    using splitOn_set [OF that] all by (intro trim_blank) blast
  then show ?thesis
    by (simp add: paragraphs_def split_def paragraphBreak_def js_def filter_empty_conv)
qed

lemma format_no_paragraphs: "paragraphs s = [] \<Longrightarrow> formatAsMarkdown s = Inr []"
  by (simp add: formatAsMarkdown_Inr formatBullets_eq formatNumbered_eq cleanBlankLines_eq
      trim_def)

text \<open>
  C10. The empty string is formatted to the empty string, and so is every string of
  white space and line terminators only.
\<close>

theorem blank_input:
  "formatAsMarkdown [] = Inr [] \<and> ((\<forall>c\<in>set s. isSpace c) \<longrightarrow> formatAsMarkdown s = Inr [])"
  using paragraphs_blank [of "[]"] paragraphs_blank [of s] by (simp add: format_no_paragraphs)

theorem blank_input_witness:
  "formatAsMarkdown (js ''   '' @ paragraphBreak @ js '' '' @ paragraphBreak @ paragraphBreak @ [0x0009, 0x00A0])
     = Inr []"
  using blank_input [of "js ''   '' @ paragraphBreak @ js '' '' @ paragraphBreak @ paragraphBreak @ [0x0009, 0x00A0]"]
  by (simp add: js_def paragraphBreak_def isSpace_def isWhiteSpace_def isLineTerminator_def)

section \<open>Text without a place to match\<close>

lemma bol_Some [simp]: "bol (Some c) = isLineTerminator c"
  by (simp add: bol_def)

lemma bol_None [simp]: "bol None"
  by (simp add: bol_def)

lemma bulletsFrom_skip:
  "\<forall>c\<in>set u. \<not> isLineTerminator c \<Longrightarrow> u = [] \<or> \<not> bol p \<or> hd u \<notin> set bulletGlyphs \<Longrightarrow>
   bulletsFrom p (u @ v) = u @ bulletsFrom (lastOpt p u) v"
proof (induction u arbitrary: p)
  case Nil
  show ?case by simp
next
  case (Cons c u)
  then have "bulletMatch p (c # u @ v) = None"
    by (auto simp: bulletMatch_def)
  moreover have "bulletsFrom (Some c) (u @ v) = u @ bulletsFrom (lastOpt (Some c) u) v"
    using Cons.prems by (intro Cons.IH) simp_all
  ultimately show ?case
    by (simp add: bulletsFrom_Cons)
qed

lemma numberedFrom_skip:
  "\<forall>c\<in>set u. \<not> isLineTerminator c \<Longrightarrow> u = [] \<or> \<not> bol p \<or> \<not> isDigit (hd u) \<Longrightarrow>
   numberedFrom p (u @ v) = u @ numberedFrom (lastOpt p u) v"
proof (induction u arbitrary: p)
  case Nil
  show ?case by simp
next
  case (Cons c u)
  then have "orderedMatch p (c # u @ v) = None"
    by (auto simp: orderedMatch_def)
  moreover have "numberedFrom (Some c) (u @ v) = u @ numberedFrom (lastOpt (Some c) u) v"
    using Cons.prems by (intro Cons.IH) simp_all
  ultimately show ?case
    by (simp add: numberedFrom_Cons)
qed

lemma blankLinesFrom_skip:
  "0x000A \<notin> set u \<Longrightarrow> blankLinesFrom p (u @ v) = u @ blankLinesFrom (lastOpt p u) v"
proof (induction u arbitrary: p)
  case Nil
  show ?case by simp
next
  case (Cons c u)
  then have "blankLinesMatch (c # u @ v) = None"
    by (auto simp: blankLinesMatch_def split: list.splits)
  with Cons show ?case
    by (simp add: blankLinesFrom_Cons)
qed

lemma trim_id: "s \<noteq> [] \<Longrightarrow> \<not> isSpace (hd s) \<Longrightarrow> \<not> isSpace (last s) \<Longrightarrow> trim s = s"
proof -
  assume s: "s \<noteq> []" and h: "\<not> isSpace (hd s)" and l: "\<not> isSpace (last s)"
  from s h have 1: "dropWhile isSpace s = s"
    by (cases s) simp_all
  from s l have "\<not> isSpace (hd (rev s))"
    by (simp add: hd_rev)
  with s have 2: "dropWhile isSpace (rev s) = rev s"
    by (cases "rev s") simp_all
  show ?thesis
    unfolding trim_def 1 2 by simp
qed

lemma splitOn_absent:
  "hd sep \<notin> set s \<Longrightarrow> sep \<noteq> [] \<Longrightarrow> splitOn sep s = [s]"
proof (induction s)
  case Nil
  show ?case by simp
next
  case (Cons c s)
  from Cons.prems have "take (length sep) (c # s) \<noteq> sep"
    by (cases sep) auto
  with Cons show ?case by simp
qed





section \<open>Bullet lines\<close>





section \<open>Blank lines\<close>







lemma rev_split: "xs = rev (dropWhile P (rev xs)) @ rev (takeWhile P (rev xs))"
proof -
  have "rev xs = takeWhile P (rev xs) @ dropWhile P (rev xs)" by simp
  then have "rev (rev xs) = rev (takeWhile P (rev xs) @ dropWhile P (rev xs))"
    by (rule arg_cong)
  then show ?thesis
    by (simp only: rev_rev_ident rev_append)
qed












section \<open>The list replacements applied twice\<close>

lemma digit_plain: "isDigit c \<Longrightarrow> \<not> isLineTerminator c"
  using digit_not_space lt_space by blast

lemma glyph_plain: "c \<in> set bulletGlyphs \<Longrightarrow> \<not> isLineTerminator c"
  using glyph_not_space lt_space by blast

lemma bulletsFrom_no_bol: "\<not> bol p \<Longrightarrow> bulletsFrom p (x # xs) = x # bulletsFrom (Some x) xs"
  by (simp add: bulletsFrom_Cons bulletMatch_def)

lemma numberedFrom_no_bol: "\<not> bol p \<Longrightarrow> numberedFrom p (x # xs) = x # numberedFrom (Some x) xs"
  by (simp add: numberedFrom_Cons orderedMatch_def)

lemma bulletsFrom_no_glyph: "\<forall>c\<in>set cs. c \<notin> set bulletGlyphs \<Longrightarrow> bulletsFrom p cs = cs"
  by (induction cs arbitrary: p) (simp_all add: bulletsFrom_Cons bulletMatch_def)

lemma numberedFrom_no_digit: "\<forall>c\<in>set cs. \<not> isDigit c \<Longrightarrow> numberedFrom p cs = cs"
  by (induction cs arbitrary: p) (simp_all add: numberedFrom_Cons orderedMatch_def)

text \<open>Where the item text fails to match, it still fails after a rewriting of the input that
  keeps an empty input, a first code unit that is no space, and an input of spaces only.\<close>

lemma itemText_None_stable:
  assumes "itemText cs = None"
    and "cs = [] \<Longrightarrow> cs' = []"
    and "cs \<noteq> [] \<Longrightarrow> \<not> isSpace (hd cs) \<Longrightarrow> cs' \<noteq> [] \<and> hd cs' = hd cs"
    and "\<forall>c\<in>set cs. isSpace c \<Longrightarrow> cs' = cs"
  shows "itemText cs' = None"
proof -
  from assms(1) consider "cs = []" | "cs \<noteq> []" "\<not> isSpace (hd cs)"
    | "cs \<noteq> []" "isSpace (hd cs)" "\<forall>c\<in>set (tl cs). isLineTerminator c"
    unfolding itemText_None by blast
  then show ?thesis
  proof cases
    case 1
    with assms(2) show ?thesis by (simp add: itemText_def)
  next
    case 2
    with assms(3) show ?thesis by (simp add: itemText_None)
  next
    case 3
    then have "\<forall>c\<in>set cs. isSpace c"
      using lt_space by (cases cs) auto
    with assms(4) assms(1) show ?thesis by simp
  qed
qed

lemma itemText_None_bullets:
  assumes "itemText cs = None" "\<not> bol p"
  shows "itemText (bulletsFrom p cs) = None"
  using assms(1)
proof (rule itemText_None_stable)
  show "cs = [] \<Longrightarrow> bulletsFrom p cs = []" by simp
  show "cs \<noteq> [] \<Longrightarrow> \<not> isSpace (hd cs) \<Longrightarrow>
    bulletsFrom p cs \<noteq> [] \<and> hd (bulletsFrom p cs) = hd cs"
    using assms(2) by (cases cs) (simp_all add: bulletsFrom_no_bol)
  show "\<forall>c\<in>set cs. isSpace c \<Longrightarrow> bulletsFrom p cs = cs"
    using glyph_not_space by (intro bulletsFrom_no_glyph) blast
qed

lemma itemText_None_numbered:
  assumes "itemText cs = None" "\<not> bol p"
  shows "itemText (numberedFrom p cs) = None"
  using assms(1)
proof (rule itemText_None_stable)
  show "cs = [] \<Longrightarrow> numberedFrom p cs = []" by simp
  show "cs \<noteq> [] \<Longrightarrow> \<not> isSpace (hd cs) \<Longrightarrow>
    numberedFrom p cs \<noteq> [] \<and> hd (numberedFrom p cs) = hd cs"
    using assms(2) by (cases cs) (simp_all add: numberedFrom_no_bol)
  show "\<forall>c\<in>set cs. isSpace c \<Longrightarrow> numberedFrom p cs = cs"
    using digit_not_space by (intro numberedFrom_no_digit) blast
qed

text \<open>A bullet that does not match still does not match after either replacement has
  rewritten the text behind it.\<close>

lemma bulletMatch_None_bullets:
  "bulletMatch p (c # cs) = None \<Longrightarrow> bulletMatch p (c # bulletsFrom (Some c) cs) = None"
  using itemText_None_bullets [of cs "Some c"] glyph_plain [of c]
  by (auto simp: bulletMatch_def split: if_splits)

lemma bulletMatch_None_numbered:
  "bulletMatch p (c # cs) = None \<Longrightarrow> bulletMatch p (c # numberedFrom (Some c) cs) = None"
  using itemText_None_numbered [of cs "Some c"] glyph_plain [of c]
  by (auto simp: bulletMatch_def split: if_splits)

lemma bulletsFrom_fixed_Cons:
  "bulletsFrom p (c # cs) = c # cs \<longleftrightarrow>
    bulletMatch p (c # cs) = None \<and> bulletsFrom (Some c) cs = cs"
proof (cases "bulletMatch p (c # cs)")
  case None
  then show ?thesis by (simp add: bulletsFrom_Cons)
next
  case (Some r)
  obtain cap rest where r: "r = (cap, rest)" by (cases r)
  from bulletMatch_Some [OF Some [unfolded r]] have "c \<in> set bulletGlyphs" by auto
  then have "c \<noteq> 0x002D" using hyphen_plain(4) by auto
  with Some r show ?thesis
    by (simp add: bulletsFrom_Cons js_def)
qed

lemma bulletsFrom_fixed_suffix:
  "bulletsFrom p (u @ v) = u @ v \<Longrightarrow> bulletsFrom (lastOpt p u) v = v"
  by (induction u arbitrary: p) (simp_all add: bulletsFrom_fixed_Cons)

text \<open>The bullet replacement leaves nothing to replace.\<close>

lemma bulletsFrom_idem: "bulletsFrom p (bulletsFrom p s) = bulletsFrom p s"
proof (induction "length s" arbitrary: p s rule: less_induct)
  case less
  show ?case
  proof (cases s)
    case Nil
    then show ?thesis by simp
  next
    case (Cons c cs)
    show ?thesis
    proof (cases "bulletMatch p (c # cs)")
      case None
      have "bulletsFrom (Some c) (bulletsFrom (Some c) cs) = bulletsFrom (Some c) cs"
        using less [of cs "Some c"] Cons by simp
      with None bulletMatch_None_bullets [OF None] Cons show ?thesis
        by (simp add: bulletsFrom_Cons)
    next
      case (Some r)
      obtain cap rest where r: "r = (cap, rest)" by (cases r)
      note m = Some [unfolded r]
      from bulletMatch_Some [OF m] have cap: "cap \<noteq> []" "\<forall>c\<in>set cap. \<not> isLineTerminator c"
        by auto
      let ?u = "js ''- '' @ cap"
      let ?Y = "bulletsFrom (Some (last cap)) rest"
      have ih: "bulletsFrom (Some (last cap)) ?Y = ?Y"
        using less [of rest "Some (last cap)"] bulletMatch_shorter [OF m] Cons by simp
      have "bulletsFrom p (?u @ ?Y) = ?u @ bulletsFrom (lastOpt p ?u) ?Y"
        using cap hyphen_plain blank_space
        by (intro bulletsFrom_skip) (auto simp: js_def)
      moreover have "lastOpt p ?u = Some (last cap)"
        using cap(1) by (simp add: lastOpt_def)
      ultimately have "bulletsFrom p (?u @ ?Y) = ?u @ ?Y"
        using ih by simp
      with Cons m show ?thesis
        by (simp add: bulletsFrom_Cons)
    qed
  qed
qed

text \<open>The numbered replacement gives the bullet replacement nothing to replace.\<close>

lemma bulletsFrom_numbered:
  "bulletsFrom p t = t \<Longrightarrow> bulletsFrom p (numberedFrom p t) = numberedFrom p t"
proof (induction "length t" arbitrary: p t rule: less_induct)
  case less
  show ?case
  proof (cases t)
    case Nil
    then show ?thesis by simp
  next
    case (Cons c cs)
    with less.prems have nb: "bulletMatch p (c # cs) = None" and st: "bulletsFrom (Some c) cs = cs"
      by (simp_all add: bulletsFrom_fixed_Cons)
    show ?thesis
    proof (cases "orderedMatch p (c # cs)")
      case None
      have "bulletsFrom (Some c) (numberedFrom (Some c) cs) = numberedFrom (Some c) cs"
        using less.hyps [of cs "Some c"] st Cons by simp
      with None bulletMatch_None_numbered [OF nb] Cons show ?thesis
        by (simp add: numberedFrom_Cons bulletsFrom_Cons)
    next
      case (Some r)
      obtain ds cap rest where r: "r = (ds, cap, rest)" by (cases r)
      note m = Some [unfolded r]
      from orderedMatch_Some [OF m] obtain ws where
        t: "c # cs = ds @ 0x002E # ws @ cap @ rest" and ds: "ds \<noteq> []" "\<forall>c\<in>set ds. isDigit c"
        and cap: "cap \<noteq> []" "\<forall>c\<in>set cap. \<not> isLineTerminator c"
        by auto
      let ?u = "ds @ js ''. '' @ cap"
      let ?Y = "numberedFrom (Some (last cap)) rest"
      have "bulletsFrom p ((ds @ 0x002E # ws @ cap) @ rest) = (ds @ 0x002E # ws @ cap) @ rest"
        using less.prems Cons t by simp
      from bulletsFrom_fixed_suffix [OF this] cap(1)
      have "bulletsFrom (Some (last cap)) rest = rest"
        by (simp add: lastOpt_def)
      then have ih: "bulletsFrom (Some (last cap)) ?Y = ?Y"
        using less.hyps [of rest "Some (last cap)"] orderedMatch_shorter [OF m] Cons by simp
      have "hd ?u \<notin> set bulletGlyphs"
        using ds digit_not_glyph by (cases ds) auto
      moreover have "\<forall>c\<in>set ?u. \<not> isLineTerminator c"
        using ds(2) cap(2) digit_plain dot_plain(3) blank_space(2) by (auto simp: js_def)
      ultimately have "bulletsFrom p (?u @ ?Y) = ?u @ bulletsFrom (lastOpt p ?u) ?Y"
        by (intro bulletsFrom_skip) auto
      moreover have "lastOpt p ?u = Some (last cap)"
        using cap(1) by (simp add: lastOpt_def)
      ultimately have "bulletsFrom p (?u @ ?Y) = ?u @ ?Y"
        using ih by simp
      with Cons m show ?thesis
        by (simp add: numberedFrom_Cons)
    qed
  qed
qed

text \<open>A numeral that does not match still does not match after the numbered replacement
  has rewritten the text behind it.\<close>

lemma orderedMatch_None_numbered:
  assumes "orderedMatch p (c # cs) = None"
  shows "orderedMatch p (c # numberedFrom (Some c) cs) = None"
proof (cases "bol p \<and> isDigit c")
  case False
  then show ?thesis by (auto simp: orderedMatch_def)
next
  case True
  let ?ds = "takeWhile isDigit cs"
  let ?r = "dropWhile isDigit cs"
  let ?q = "lastOpt (Some c) ?ds"
  have dig: "\<forall>x\<in>set ?ds. isDigit x"
    by (auto dest: set_takeWhileD)
  have nb: "\<not> bol ?q"
    using True dig digit_plain by (cases "?ds = []") (auto simp: lastOpt_def)
  have "numberedFrom (Some c) (?ds @ ?r) = ?ds @ numberedFrom ?q ?r"
    using dig digit_plain True by (intro numberedFrom_skip) auto
  then have out: "numberedFrom (Some c) cs = ?ds @ numberedFrom ?q ?r"
    by simp
  show ?thesis
  proof (cases ?r)
    case Nil
    have "numberedFrom (Some c) cs = ?ds"
      using out [unfolded Nil] by simp
    then have "dropWhile isDigit (c # numberedFrom (Some c) cs) = []"
      using True dig by simp
    then show ?thesis
      by (simp add: orderedMatch_def del: dropWhile_eq_Nil_conv)
  next
    case (Cons x r')
    have x: "\<not> isDigit x"
      using hd_dropWhile [of isDigit cs] Cons by auto
    have "numberedFrom ?q ?r = x # numberedFrom (Some x) r'"
      using nb Cons by (simp add: numberedFrom_no_bol)
    with out have o: "numberedFrom (Some c) cs = ?ds @ x # numberedFrom (Some x) r'"
      by simp
    have d: "dropWhile isDigit (c # numberedFrom (Some c) cs) = x # numberedFrom (Some x) r'"
      unfolding o using True dig x by simp
    show ?thesis
    proof (cases "x = 0x002E")
      case False
      with d show ?thesis by (simp add: orderedMatch_def)
    next
      case dot: True
      from assms True Cons dot have "itemText r' = None"
        by (simp add: orderedMatch_def)
      then have "itemText (numberedFrom (Some x) r') = None"
        using dot dot_plain(3) by (intro itemText_None_numbered) simp_all
      with d dot show ?thesis by (simp add: orderedMatch_def)
    qed
  qed
qed

text \<open>What the numbered replacement has written matches again, with the same capture.\<close>

lemma orderedMatch_again:
  assumes m: "orderedMatch p s = Some (ds, cap, rest)"
  shows "orderedMatch p (ds @ js ''. '' @ cap @ numberedFrom (Some (last cap)) rest) =
    Some (ds, cap, numberedFrom (Some (last cap)) rest)"
proof -
  let ?Y = "numberedFrom (Some (last cap)) rest"
  from orderedMatch_Some [OF m] have b: "bol p" and ds: "ds \<noteq> []" "\<forall>c\<in>set ds. isDigit c"
    and cap: "cap \<noteq> []" "\<forall>c\<in>set cap. \<not> isLineTerminator c"
    and rest: "rest = [] \<or> isLineTerminator (hd rest)"
    and bk: "isSpace (hd cap) \<longrightarrow> length cap = 1 \<and> (\<forall>c\<in>set rest. isLineTerminator c)"
    by auto
  have tw: "takeWhile isDigit (ds @ 0x002E # xs) = ds"
    and dw: "dropWhile isDigit (ds @ 0x002E # xs) = 0x002E # xs" for xs
    using ds(2) dot_plain(2) by simp_all
  have "spacesThenLine (cap @ ?Y) = Some (cap, ?Y)"
  proof (cases "isSpace (hd cap)")
    case False
    have Y: "?Y = [] \<or> isLineTerminator (hd ?Y)"
    proof (cases rest)
      case Nil
      then show ?thesis by simp
    next
      case (Cons x r')
      with rest have "isLineTerminator x" by simp
      then have "\<not> isDigit x" using digit_plain by blast
      then have "orderedMatch (Some (last cap)) (x # r') = None"
        by (simp add: orderedMatch_def)
      with Cons \<open>isLineTerminator x\<close> show ?thesis
        by (simp add: numberedFrom_Cons)
    qed
    obtain x r where c: "cap = x # r" using cap(1) by (cases cap) auto
    have "spacesThenLine ([] @ x # (r @ ?Y)) =
      Some (lineOf (x # (r @ ?Y)), afterLine (x # (r @ ?Y)))"
      using False c by (intro spacesThenLine_text) simp_all
    moreover have "lineOf (cap @ ?Y) = cap"
      unfolding lineOf_def using cap(2) Y
      by (cases ?Y) simp_all
    moreover have "afterLine (cap @ ?Y) = ?Y"
      unfolding afterLine_def using cap(2) Y
      by (cases ?Y) simp_all
    ultimately show ?thesis
      using c by simp
  next
    case True
    with bk have l: "length cap = 1" and lt: "\<forall>c\<in>set rest. isLineTerminator c"
      by simp_all
    from l obtain c0 where c: "cap = [c0]"
      by (cases cap) auto
    have "\<forall>c\<in>set rest. \<not> isDigit c"
      using lt digit_plain by blast
    then have Y: "?Y = rest"
      by (rule numberedFrom_no_digit)
    have "spacesThenLine ([] @ c0 # rest) = Some ([c0], rest)"
      using True c cap(2) lt by (intro spacesThenLine_back) simp_all
    with Y c show ?thesis by simp
  qed
  then have "itemText (0x0020 # cap @ ?Y) = Some (cap, ?Y)"
    using blank_space(1) by (simp add: itemText_def)
  then have "orderedMatch p (ds @ 0x002E # 0x0020 # cap @ ?Y) = Some (ds, cap, ?Y)"
    using b ds(1) by (simp add: orderedMatch_def tw dw)
  then show ?thesis
    by (simp add: js_def)
qed

text \<open>The numbered replacement applied twice is the numbered replacement.\<close>

lemma numberedFrom_idem: "numberedFrom p (numberedFrom p s) = numberedFrom p s"
proof (induction "length s" arbitrary: p s rule: less_induct)
  case less
  show ?case
  proof (cases s)
    case Nil
    then show ?thesis by simp
  next
    case (Cons c cs)
    show ?thesis
    proof (cases "orderedMatch p (c # cs)")
      case None
      have "numberedFrom (Some c) (numberedFrom (Some c) cs) = numberedFrom (Some c) cs"
        using less [of cs "Some c"] Cons by simp
      with None orderedMatch_None_numbered [OF None] Cons show ?thesis
        by (simp add: numberedFrom_Cons)
    next
      case (Some r)
      obtain ds cap rest where r: "r = (ds, cap, rest)" by (cases r)
      note m = Some [unfolded r]
      let ?Y = "numberedFrom (Some (last cap)) rest"
      from orderedMatch_Some [OF m] have ds: "ds \<noteq> []" by auto
      have ih: "numberedFrom (Some (last cap)) ?Y = ?Y"
        using less [of rest "Some (last cap)"] orderedMatch_shorter [OF m] Cons by simp
      have out: "numberedFrom p s = ds @ js ''. '' @ cap @ ?Y"
        using Cons m by (simp add: numberedFrom_Cons)
      obtain d ds' where d: "ds = d # ds'" using ds by (cases ds) auto
      have "numberedFrom p (d # ds' @ js ''. '' @ cap @ ?Y) =
        ds @ js ''. '' @ cap @ numberedFrom (Some (last cap)) ?Y"
        using orderedMatch_again [OF m] d by (simp add: numberedFrom_Cons)
      then show ?thesis
        unfolding out using d ih by simp
    qed
  qed
qed

text \<open>
  C6. The bullet replacement followed by the numbered replacement, applied to its own
  result, changes nothing.
\<close>

theorem normalization_idempotent:
  "formatNumbered (formatBullets (formatNumbered (formatBullets s))) =
   formatNumbered (formatBullets s)"
proof -
  have "bulletsFrom None (bulletsFrom None s) = bulletsFrom None s"
    by (rule bulletsFrom_idem)
  then have "bulletsFrom None (numberedFrom None (bulletsFrom None s)) =
    numberedFrom None (bulletsFrom None s)"
    by (rule bulletsFrom_numbered)
  then show ?thesis
    by (simp add: formatBullets_eq formatNumbered_eq numberedFrom_idem)
qed

section \<open>Order of the content\<close>

lemma reading_Nil [simp]: "reading f [] = []"
  by (simp add: reading_def)

lemma reading_Cons [simp]: "reading f (c # s) = f c @ reading f s"
  by (simp add: reading_def)

lemma reading_append [simp]: "reading f (a @ b) = reading f a @ reading f b"
  by (simp add: reading_def)

lemma reading_concat: "reading f (concat xs) = concat (map (reading f) xs)"
  by (induction xs) simp_all

lemma blind_spaceBlind: "blind f \<Longrightarrow> spaceBlind f"
  by (simp add: blind_def)

lemma reading_spaces: "spaceBlind f \<Longrightarrow> \<forall>c\<in>set s. isSpace c \<Longrightarrow> reading f s = []"
  by (induction s) (simp_all add: spaceBlind_def)

lemma reading_glyph: "blind f \<Longrightarrow> g \<in> set bulletGlyphs \<Longrightarrow> f g = f 0x002D"
  by (simp add: blind_def)

lemma reading_blank: "spaceBlind f \<Longrightarrow> f 0x0020 = []" "spaceBlind f \<Longrightarrow> f 0x000A = []"
  using blank_space(1) newline_space(1) by (simp_all add: spaceBlind_def)

lemma trim_around:
  "\<exists>a b. s = a @ trim s @ b \<and> (\<forall>c\<in>set a. isSpace c) \<and> (\<forall>c\<in>set b. isSpace c)"
proof -
  let ?t = "dropWhile isSpace s"
  let ?a = "takeWhile isSpace s"
  let ?b = "rev (takeWhile isSpace (rev ?t))"
  have "s = ?a @ ?t" by simp
  also have "?t = trim s @ ?b"
    unfolding trim_def by (rule rev_split)
  finally have "s = ?a @ trim s @ ?b" .
  moreover have "\<forall>c\<in>set ?a. isSpace c" "\<forall>c\<in>set ?b. isSpace c"
    by (auto dest: set_takeWhileD)
  ultimately show ?thesis by blast
qed

lemma reading_trim: "spaceBlind f \<Longrightarrow> reading f (trim s) = reading f s"
proof -
  assume b: "spaceBlind f"
  from trim_around [of s] obtain x y where s: "s = x @ trim s @ y"
    and x: "\<forall>c\<in>set x. isSpace c" and y: "\<forall>c\<in>set y. isSpace c"
    by blast
  have "reading f s = reading f (x @ trim s @ y)"
    using s by simp
  then show ?thesis
    by (simp add: reading_spaces [OF b x] reading_spaces [OF b y])
qed

lemma reading_join:
  "reading f sep = [] \<Longrightarrow> reading f (join sep ps) = concat (map (reading f) ps)"
  by (induction sep ps rule: join.induct) simp_all

lemma reading_splitOn:
  "reading f sep = [] \<Longrightarrow> concat (map (reading f) (splitOn sep s)) = reading f s"
proof (induction sep s rule: splitOn.induct)
  case (1 sep)
  show ?case by simp
next
  case (2 sep c cs)
  show ?case
  proof (cases "sep \<noteq> [] \<and> take (length sep) (c # cs) = sep")
    case True
    have "reading f (c # cs) =
      reading f (take (length sep) (c # cs) @ drop (length sep) (c # cs))"
      by (simp only: append_take_drop_id)
    also have "\<dots> = reading f (drop (length sep) (c # cs))"
      using True "2.prems" by (simp only: reading_append) simp
    finally show ?thesis
      using True "2.IH"(1) [OF True "2.prems"] by simp
  next
    case False
    then show ?thesis
      using "2.IH"(2) [OF False "2.prems"] by (auto split: list.splits)
  qed
qed

lemma reading_paragraphBreak: "spaceBlind f \<Longrightarrow> reading f paragraphBreak = []"
  by (simp add: paragraphBreak_def js_def reading_blank)

lemma reading_paragraphs:
  assumes b: "spaceBlind f"
  shows "concat (map (reading f) (paragraphs s)) = reading f s"
proof -
  have "concat (map (reading f) (filter (\<lambda>p. trim p \<noteq> []) ps)) = concat (map (reading f) ps)"
    for ps
  proof (induction ps)
    case Nil
    show ?case by simp
  next
    case (Cons p ps)
    have "reading f p = []" if "trim p = []"
      using reading_trim [OF b, of p] that by simp
    with Cons show ?case by simp
  qed
  moreover have "split paragraphBreak s = splitOn paragraphBreak s"
    by (simp add: split_def paragraphBreak_def js_def)
  ultimately show ?thesis
    using reading_splitOn [OF reading_paragraphBreak [OF b], of s]
    by (simp add: paragraphs_def)
qed

lemma reading_bulletsFrom: "blind f \<Longrightarrow> reading f (bulletsFrom p s) = reading f s"
proof (induction "length s" arbitrary: p s rule: less_induct)
  case less
  note bl = less.prems
  note b = blind_spaceBlind [OF bl]
  show ?case
  proof (cases s)
    case Nil
    then show ?thesis by simp
  next
    case (Cons c cs)
    show ?thesis
    proof (cases "bulletMatch p (c # cs)")
      case None
      with less.hyps [of cs "Some c"] bl Cons show ?thesis
        by (simp add: bulletsFrom_Cons)
    next
      case (Some r)
      obtain cap rest where r: "r = (cap, rest)" by (cases r)
      note m = Some [unfolded r]
      from bulletMatch_Some [OF m] obtain g ws where
        s: "c # cs = g # ws @ cap @ rest" and g: "g \<in> set bulletGlyphs"
        and ws: "\<forall>c\<in>set ws. isSpace c"
        by auto
      have "reading f (bulletsFrom (Some (last cap)) rest) = reading f rest"
        using less.hyps [of rest "Some (last cap)"] bulletMatch_shorter [OF m] bl Cons by simp
      then have "reading f (bulletsFrom p (c # cs)) = f 0x002D @ reading f cap @ reading f rest"
        using m by (simp add: bulletsFrom_Cons js_def reading_blank [OF b])
      also have "\<dots> = reading f (g # ws @ cap @ rest)"
        by (simp add: reading_glyph [OF bl g] reading_spaces [OF b ws])
      finally show ?thesis
        using Cons s by simp
    qed
  qed
qed

lemma reading_numberedFrom: "spaceBlind f \<Longrightarrow> reading f (numberedFrom p s) = reading f s"
proof (induction "length s" arbitrary: p s rule: less_induct)
  case less
  note b = less.prems
  show ?case
  proof (cases s)
    case Nil
    then show ?thesis by simp
  next
    case (Cons c cs)
    show ?thesis
    proof (cases "orderedMatch p (c # cs)")
      case None
      with less.hyps [of cs "Some c"] b Cons show ?thesis
        by (simp add: numberedFrom_Cons)
    next
      case (Some r)
      obtain ds cap rest where r: "r = (ds, cap, rest)" by (cases r)
      note m = Some [unfolded r]
      from orderedMatch_Some [OF m] obtain ws where
        s: "c # cs = ds @ 0x002E # ws @ cap @ rest" and ws: "\<forall>c\<in>set ws. isSpace c"
        by auto
      have "reading f (numberedFrom (Some (last cap)) rest) = reading f rest"
        using less.hyps [of rest "Some (last cap)"] orderedMatch_shorter [OF m] b Cons by simp
      then have "reading f (numberedFrom p (c # cs)) =
        reading f ds @ f 0x002E @ reading f cap @ reading f rest"
        using m by (simp add: numberedFrom_Cons js_def reading_blank [OF b])
      also have "\<dots> = reading f (ds @ 0x002E # ws @ cap @ rest)"
        by (simp add: reading_spaces [OF b ws])
      finally show ?thesis
        using Cons s by simp
    qed
  qed
qed

lemma reading_blankLinesFrom: "spaceBlind f \<Longrightarrow> reading f (blankLinesFrom p s) = reading f s"
proof (induction "length s" arbitrary: p s rule: less_induct)
  case less
  note b = less.prems
  show ?case
  proof (cases s)
    case Nil
    then show ?thesis by simp
  next
    case (Cons c cs)
    show ?thesis
    proof (cases "blankLinesMatch (c # cs)")
      case None
      with less.hyps [of cs "Some c"] b Cons show ?thesis
        by (simp add: blankLinesFrom_Cons)
    next
      case (Some rest)
      then obtain r where s: "c # cs = 0x000A # 0x000A # 0x000A # r"
        and rest: "rest = dropWhile (\<lambda>x. x = 0x000A) r"
        by (auto simp: blankLinesMatch_def split: list.splits if_splits)
      have "r = takeWhile (\<lambda>x. x = 0x000A) r @ rest"
        using rest by simp
      moreover have "\<forall>c\<in>set (takeWhile (\<lambda>x. x = 0x000A) r). isSpace c"
        using newline_space(1) by (auto dest: set_takeWhileD)
      ultimately have "reading f r = reading f rest"
        using reading_spaces [OF b, of "takeWhile (\<lambda>x. x = 0x000A) r"]
        by (metis append_Nil reading_append)
      moreover have "reading f (blankLinesFrom (Some 0x000A) rest) = reading f rest"
        using less.hyps [of rest "Some 0x000A"] blankLinesMatch_shorter [OF Some] b Cons by simp
      ultimately show ?thesis
        using Some s Cons
        by (simp add: blankLinesFrom_Cons reading_paragraphBreak [OF b] reading_blank [OF b])
    qed
  qed
qed

lemma blind_contentUnit: "blind contentUnit"
  using glyph_not_space by (auto simp: blind_def spaceBlind_def contentUnit_def)

lemma reading_flushLine:
  "spaceBlind f \<Longrightarrow>
   reading f (pageText (flushLine s)) = reading f (pageText s) @ reading f (line s)"
  using reading_trim [of f "line s"]
  by (auto simp: flushLine_def reading_paragraphBreak)

lemma reading_itemStep:
  "spaceBlind f \<Longrightarrow>
   reading f (pageText (itemStep s item)) @ reading f (line (itemStep s item)) =
   reading f (pageText s) @ reading f (line s) @ reading f (str item)"
  by (simp add: itemStep_def Let_def reading_flushLine js_def reading_blank)

lemma reading_items:
  "spaceBlind f \<Longrightarrow>
   reading f (pageText (foldl itemStep s items)) @ reading f (line (foldl itemStep s items)) =
   reading f (pageText s) @ reading f (line s) @ reading f (concat (map str items))"
proof (induction items arbitrary: s)
  case Nil
  show ?case by simp
next
  case (Cons item items)
  from Cons.IH [OF Cons.prems, of "itemStep s item"] reading_itemStep [OF Cons.prems, of s item]
  show ?case by simp
qed

lemma reading_extractPageText:
  "spaceBlind f \<Longrightarrow> reading f (extractPageText items) = reading f (concat (map str items))"
  using reading_items [of f "\<lparr>lastY = None, line = [], pageText = []\<rparr>" items]
  by (simp add: extractPageText_def reading_flushLine)

lemma reading_settle:
  "blind f \<Longrightarrow>
   reading f (trim (cleanBlankLines (formatNumbered (formatBullets s)))) = reading f s"
  by (simp add: reading_trim cleanBlankLines_eq formatNumbered_eq formatBullets_eq
      reading_blankLinesFrom reading_numberedFrom reading_bulletsFrom blind_spaceBlind)

lemma nth_indices: "map (\<lambda>i. h (xs ! i)) [0..<length xs] = map h xs"
  by (rule nth_equalityI) simp_all

text \<open>The content of the formatted text is the content of the text.\<close>

lemma content_formatAsMarkdown:
  "\<exists>out. formatAsMarkdown text = Inr out \<and> content out = content text"
proof -
  let ?arr = "paragraphs text"
  let ?fmt = "\<lambda>i. if headingBySpec ?arr i then js ''## '' @ trim (?arr ! i) else trim (?arr ! i)"
  let ?out = "trim (cleanBlankLines (formatNumbered (formatBullets
      (join paragraphBreak (map ?fmt [0..<length ?arr])))))"
  note bl = blind_contentUnit
  note b = blind_spaceBlind [OF bl]
  have "reading contentUnit (?fmt i) = reading contentUnit (?arr ! i)" for i
    by (simp add: reading_trim [OF b] js_def contentUnit_def blank_space(1))
  then have "map (reading contentUnit \<circ> ?fmt) [0..<length ?arr] =
    map (\<lambda>i. reading contentUnit (?arr ! i)) [0..<length ?arr]"
    by simp
  also have "\<dots> = map (reading contentUnit) ?arr"
    by (rule nth_indices)
  finally have "reading contentUnit ?out = concat (map (reading contentUnit) ?arr)"
    by (simp add: reading_settle [OF bl] reading_join [OF reading_paragraphBreak [OF b]])
  then have "content ?out = content text"
    by (simp add: content_def reading_paragraphs [OF b])
  then show ?thesis
    by (simp add: formatAsMarkdown_Inr)
qed

lemma reading_pages:
  "spaceBlind f \<Longrightarrow>
   concat (map (reading f) (map extractPageText pdf)) = reading f (concat (map str (concat pdf)))"
  by (induction pdf) (simp_all add: reading_extractPageText)

lemma content_pageSeparator: "content pageSeparator = []"
  by (simp add: content_def pageSeparator_def
      reading_paragraphBreak [OF blind_spaceBlind [OF blind_contentUnit]]
      js_def contentUnit_def)

lemma spaceBlind_visibleUnit: "spaceBlind visibleUnit"
  by (simp add: spaceBlind_def visibleUnit_def)

lemma hash_plain: "\<not> isSpace 0x0023" "\<not> isDigit 0x0023" "\<not> isLineTerminator 0x0023"
  "0x0023 \<notin> set bulletGlyphs"
  by (simp_all add: isSpace_def isWhiteSpace_def isLineTerminator_def isDigit_def glyph_cases)

lemma sameMark_refl: "list_all2 sameMark s s"
  by (simp add: list_all2_refl sameMark_def)

lemma visible_bulletsFrom: "list_all2 sameMark (visible s) (visible (bulletsFrom p s))"
proof (induction "length s" arbitrary: p s rule: less_induct)
  case less
  note b = spaceBlind_visibleUnit
  show ?case
  proof (cases s)
    case Nil
    then show ?thesis by (simp add: visible_def)
  next
    case (Cons c cs)
    show ?thesis
    proof (cases "bulletMatch p (c # cs)")
      case None
      have "list_all2 sameMark (visible cs) (visible (bulletsFrom (Some c) cs))"
        using less [of cs "Some c"] Cons by simp
      then have "list_all2 sameMark (visibleUnit c @ visible cs)
        (visibleUnit c @ visible (bulletsFrom (Some c) cs))"
        by (intro list_all2_appendI sameMark_refl)
      then show ?thesis
        using None Cons by (simp add: bulletsFrom_Cons visible_def)
    next
      case (Some r)
      obtain cap rest where r: "r = (cap, rest)" by (cases r)
      note m = Some [unfolded r]
      from bulletMatch_Some [OF m] obtain g ws where
        s: "c # cs = g # ws @ cap @ rest" and g: "g \<in> set bulletGlyphs"
        and ws: "\<forall>c\<in>set ws. isSpace c"
        by auto
      have ih: "list_all2 sameMark (visible rest) (visible (bulletsFrom (Some (last cap)) rest))"
        using less [of rest "Some (last cap)"] bulletMatch_shorter [OF m] Cons by simp
      have "\<not> isSpace g" using glyph_not_space g by blast
      then have l: "visible (c # cs) = g # visible cap @ visible rest"
        unfolding s by (simp add: visible_def visibleUnit_def [of g] reading_spaces [OF b ws])
      have r: "visible (bulletsFrom p (c # cs)) =
        0x002D # visible cap @ visible (bulletsFrom (Some (last cap)) rest)"
        using m hyphen_plain(1)
        by (simp add: bulletsFrom_Cons js_def visible_def reading_blank [OF b]
            visibleUnit_def [of "0x002D"])
      have "sameMark g 0x002D" using g by (simp add: sameMark_def)
      then show ?thesis
        unfolding Cons l r using ih by (intro list.rel_intros list_all2_appendI sameMark_refl)
    qed
  qed
qed

lemma visible_settle:
  "list_all2 sameMark (visible s)
     (visible (trim (cleanBlankLines (formatNumbered (formatBullets s)))))"
proof -
  note b = spaceBlind_visibleUnit
  have "visible (trim (cleanBlankLines (formatNumbered (formatBullets s)))) =
    visible (bulletsFrom None s)"
    by (simp add: visible_def reading_trim [OF b] cleanBlankLines_eq formatNumbered_eq
        formatBullets_eq reading_blankLinesFrom [OF b] reading_numberedFrom [OF b])
  then show ?thesis
    by (simp add: visible_bulletsFrom)
qed

lemma visible_join_pages:
  "visible (join pageSeparator ps) = join (js ''---'') (map visible ps)"
proof (induction pageSeparator ps rule: join.induct)
  case (3 p q ps)
  have "visible pageSeparator = js ''---''"
    using hyphen_plain(1)
    by (simp add: visible_def pageSeparator_def js_def
        reading_paragraphBreak [OF spaceBlind_visibleUnit] visibleUnit_def)
  with 3 show ?case by (simp add: visible_def)
qed (simp_all add: visible_def)

text \<open>
  C8. The visible code units of the Markdown of a document, those that are not white
  space, are one for one and in order those of the paragraphs of the text handed to the
  formatter, \<open>##\<close> before each paragraph that the heading rule selects; a bullet glyph may
  have become \<open>-\<close>. The visible code units of these paragraphs are, in order, those of the
  fragments of the pages, page after page, with the rule \<open>---\<close> between two pages. So
  nothing of the fragments is moved, repeated or dropped, and only these marks are added.
  In particular the content (all but white space, bullet glyphs, \<open>-\<close> and \<open>#\<close>) of the
  Markdown is the content of the fragments.
\<close>

theorem order_preserved:
  "\<exists>out. extractTextFromPDF pdf = Inr out \<and>
     list_all2 sameMark
       (concat (map (\<lambda>i. (if headingBySpec (paragraphs (pageLoop pdf 1 [])) i then js ''##'' else []) @
                           visible (paragraphs (pageLoop pdf 1 []) ! i))
                  [0..<length (paragraphs (pageLoop pdf 1 []))]))
       (visible out) \<and>
     concat (map visible (paragraphs (pageLoop pdf 1 []))) =
       join (js ''---'') (map (\<lambda>page. visible (concat (map str page))) pdf) \<and>
     content out = content (concat (map str (concat pdf)))"
proof -
  let ?full = "join pageSeparator (map extractPageText pdf)"
  let ?arr = "paragraphs ?full"
  let ?fmt = "\<lambda>i. if headingBySpec ?arr i then js ''## '' @ trim (?arr ! i) else trim (?arr ! i)"
  let ?J = "join paragraphBreak (map ?fmt [0..<length ?arr])"
  let ?out = "trim (cleanBlankLines (formatNumbered (formatBullets ?J)))"
  note b = spaceBlind_visibleUnit
  have full: "pageLoop pdf 1 [] = ?full"
    using pageLoop_join [of 1 pdf "[]"] by simp
  have out: "formatAsMarkdown ?full = Inr ?out"
    by (rule formatAsMarkdown_Inr)
  have "visible (?fmt i) =
    (if headingBySpec ?arr i then js ''##'' else []) @ visible (?arr ! i)" for i
    using blank_space(1) hash_plain(1)
    by (simp add: visible_def reading_trim [OF b] js_def visibleUnit_def)
  then have "visible ?J =
    concat (map (\<lambda>i. (if headingBySpec ?arr i then js ''##'' else []) @ visible (?arr ! i))
      [0..<length ?arr])"
    unfolding visible_def
    by (simp add: reading_join [OF reading_paragraphBreak [OF b]] comp_def)
  with visible_settle [of ?J] have 1: "list_all2 sameMark
    (concat (map (\<lambda>i. (if headingBySpec ?arr i then js ''##'' else []) @ visible (?arr ! i))
      [0..<length ?arr])) (visible ?out)"
    by simp
  have "concat (map visible ?arr) = visible ?full"
    unfolding visible_def by (rule reading_paragraphs [OF b])
  also have "\<dots> = join (js ''---'') (map visible (map extractPageText pdf))"
    by (rule visible_join_pages)
  also have "map visible (map extractPageText pdf) =
    map (\<lambda>page. visible (concat (map str page))) pdf"
    by (simp add: visible_def reading_extractPageText [OF b])
  finally have 2: "concat (map visible ?arr) =
    join (js ''---'') (map (\<lambda>page. visible (concat (map str page))) pdf)" .
  from content_formatAsMarkdown [of ?full] out have "content ?out = content ?full"
    by simp
  also have "\<dots> = content (concat (map str (concat pdf)))"
    using reading_join [of contentUnit pageSeparator "map extractPageText pdf"]
      content_pageSeparator reading_pages [OF blind_spaceBlind [OF blind_contentUnit], of pdf]
    by (simp add: content_def)
  finally have 3: "content ?out = content (concat (map str (concat pdf)))" .
  show ?thesis
    unfolding extractTextFromPDF_def full
    by (intro exI [where x = ?out] conjI out 1 2 3)
qed

section \<open>Bullets line by line\<close>

lemma line_to_end:
  assumes "\<forall>c\<in>set l. \<not> isLineTerminator c" "X = [] \<or> isLineTerminator (hd X)"
  shows "lineOf (l @ X) = l" "afterLine (l @ X) = X"
  using assms by (cases X; simp add: lineOf_def afterLine_def)+

lemma bulletsFrom_line:
  assumes plain: "\<forall>c\<in>set l. \<not> isLineTerminator c" and nb: "\<not> bareBullet l"
    and b: "bol p" and X: "X = [] \<or> isLineTerminator (hd X)"
  shows "\<exists>q. bulletsFrom p (l @ X) = bulletLine l @ bulletsFrom q X"
proof (cases l)
  case Nil
  then show ?thesis by (auto simp: bulletLine_def)
next
  case (Cons g r)
  show ?thesis
  proof (cases "g \<in> set bulletGlyphs")
    case False
    then have "bulletLine l = l"
      using Cons by (simp add: bulletLine_def)
    moreover have "bulletsFrom p (l @ X) = l @ bulletsFrom (lastOpt p l) X"
      using plain False Cons by (intro bulletsFrom_skip) auto
    ultimately show ?thesis by auto
  next
    case g: True
    let ?ws = "takeWhile isSpace r"
    let ?r = "dropWhile isSpace r"
    from nb g Cons have r: "?r \<noteq> []"
      by (auto simp: bareBullet_def)
    then obtain x r'' where xr: "?r = x # r''" by (cases ?r) auto
    then have x: "\<not> isSpace x"
      using hd_dropWhile [of isSpace r] by auto
    have rsplit: "r = ?ws @ x # r''"
      using xr takeWhile_dropWhile_id [of isSpace r] by simp
    have plain_r: "\<forall>c\<in>set (x # r''). \<not> isLineTerminator c"
      using plain Cons rsplit by (metis Un_iff list.set_intros(2) set_append)
    show ?thesis
    proof (cases "?ws = []")
      case True
      then have "r = x # r''" using rsplit by simp
      then have "itemText (r @ X) = None"
        using x by (simp add: itemText_def)
      then have "bulletMatch p (g # r @ X) = None"
        by (simp add: bulletMatch_def)
      moreover have "bulletsFrom (Some g) (r @ X) = r @ bulletsFrom (lastOpt (Some g) r) X"
        using plain Cons glyph_plain [OF g] by (intro bulletsFrom_skip) auto
      moreover have "bulletLine l = l"
        using Cons True by (simp add: bulletLine_def)
      ultimately show ?thesis
        using Cons by (auto simp: bulletsFrom_Cons)
    next
      case False
      then obtain w ws' where ws: "?ws = w # ws'" by (cases ?ws) auto
      have sp: "\<forall>c\<in>set ?ws. isSpace c"
        by (auto dest: set_takeWhileD)
      with ws have w: "isSpace w" "\<forall>c\<in>set ws'. isSpace c" by auto
      have "spacesThenLine (ws' @ x # (r'' @ X)) =
        Some (lineOf (x # (r'' @ X)), afterLine (x # (r'' @ X)))"
        using w(2) x by (rule spacesThenLine_text)
      moreover have "lineOf ((x # r'') @ X) = x # r''" "afterLine ((x # r'') @ X) = X"
        using plain_r X by (rule line_to_end)+
      ultimately have "spacesThenLine (ws' @ x # r'' @ X) = Some (x # r'', X)"
        by simp
      moreover have "r @ X = w # ws' @ x # r'' @ X"
        using rsplit ws by (metis append_Cons append_assoc)
      ultimately have "itemText (r @ X) = Some (x # r'', X)"
        using w(1) by (simp add: itemText_def)
      then have "bulletMatch p (g # r @ X) = Some (x # r'', X)"
        using b g by (simp add: bulletMatch_def)
      then have "bulletsFrom p (l @ X) =
        js ''- '' @ (x # r'') @ bulletsFrom (Some (last (x # r''))) X"
        using Cons by (simp add: bulletsFrom_Cons)
      moreover have "bulletLine l = js ''- '' @ x # r''"
        using Cons g False xr by (simp add: bulletLine_def del: dropWhile_eq_Nil_conv)
      ultimately show ?thesis by auto
    qed
  qed
qed

lemma bulletsFrom_newline:
  "bulletsFrom q (0x000A # t) = 0x000A # bulletsFrom (Some 0x000A) t"
  using glyph_not_space [of "0x000A"] newline_space(1)
  by (auto simp: bulletsFrom_Cons bulletMatch_def)

lemma bulletsFrom_lines:
  "\<forall>l\<in>set ls. (\<forall>c\<in>set l. \<not> isLineTerminator c) \<and> \<not> bareBullet l \<Longrightarrow> bol p \<Longrightarrow>
   bulletsFrom p (join [0x000A] ls) = join [0x000A] (map bulletLine ls)"
proof (induction "[0x000A :: cu]" ls arbitrary: p rule: join.induct)
  case 1
  show ?case by simp
next
  case (2 l)
  then have "\<exists>q. bulletsFrom p (l @ []) = bulletLine l @ bulletsFrom q []"
    by (intro bulletsFrom_line) simp_all
  then show ?case by simp
next
  case (3 l m ls)
  have "\<exists>q. bulletsFrom p (l @ 0x000A # join [0x000A] (m # ls)) =
    bulletLine l @ bulletsFrom q (0x000A # join [0x000A] (m # ls))"
    using "3.prems" newline_space(2) by (intro bulletsFrom_line) simp_all
  moreover have "bulletsFrom (Some 0x000A) (join [0x000A] (m # ls)) =
    join [0x000A] (map bulletLine (m # ls))"
    using "3.prems" newline_space(2) by (intro "3.hyps") simp_all
  ultimately show ?case
    by (auto simp: bulletsFrom_newline)
qed

section \<open>Two paragraphs\<close>

lemma splitOn_prefix:
  "hd sep \<notin> set u \<Longrightarrow> sep \<noteq> [] \<Longrightarrow> splitOn sep (u @ sep @ v) = u # splitOn sep v"
proof (induction u)
  case Nil
  then obtain s0 sep' where "sep = s0 # sep'" by (cases sep) auto
  then show ?case by simp
next
  case (Cons c u)
  from Cons.prems have "take (length sep) (c # u @ sep @ v) \<noteq> sep"
    by (cases sep) auto
  with Cons show ?case by simp
qed

lemma numberedFrom_newline:
  "numberedFrom r (0x000A # t) = 0x000A # numberedFrom (Some 0x000A) t"
  using digit_not_space [of "0x000A"] newline_space(1)
  by (auto simp: numberedFrom_Cons orderedMatch_def)

lemma bulletLine_other: "l = [] \<or> hd l \<notin> set bulletGlyphs \<Longrightarrow> bulletLine l = l"
  by (cases l) (auto simp: bulletLine_def)

lemma two_paragraphs_settled:
  assumes a: "a \<noteq> []" "\<forall>c\<in>set a. \<not> isLineTerminator c" "\<not> isSpace (hd a)"
      "hd a \<notin> set bulletGlyphs" "\<not> isDigit (hd a)"
    and q: "plainParagraph q"
  shows "trim (cleanBlankLines (formatNumbered (formatBullets (a @ [0x000A, 0x000A] @ q)))) =
    a @ [0x000A, 0x000A] @ q"
proof -
  let ?t = "a @ [0x000A, 0x000A] @ q"
  from q have q1: "q \<noteq> []" "\<forall>c\<in>set q. \<not> isLineTerminator c" "\<not> isSpace (last q)"
    "hd q \<notin> set bulletGlyphs" "\<not> isDigit (hd q)"
    by (simp_all add: plainParagraph_def)
  have nl_a: "0x000A \<notin> set a" and nl_q: "0x000A \<notin> set q"
    using a(2) q1(2) newline_space(2) by blast+
  have "join [0x000A] [a, [], q] = ?t" by simp
  moreover have "formatBullets (join [0x000A] [a, [], q]) =
    join [0x000A] (map bulletLine [a, [], q])"
    unfolding formatBullets_eq
    using a q1 by (intro bulletsFrom_lines) (auto simp: bareBullet_def split: list.splits)
  moreover have "map bulletLine [a, [], q] = [a, [], q]"
    using a(4) q1(4) by (simp add: bulletLine_other)
  ultimately have b: "formatBullets ?t = ?t" by simp
  have "numberedFrom None (a @ 0x000A # 0x000A # q) =
    a @ numberedFrom (lastOpt None a) (0x000A # 0x000A # q)"
    using a by (intro numberedFrom_skip) auto
  moreover have "numberedFrom (Some 0x000A) (q @ []) = q @ numberedFrom (lastOpt (Some 0x000A) q) []"
    using q1 by (intro numberedFrom_skip) auto
  ultimately have n: "formatNumbered ?t = ?t"
    by (simp add: formatNumbered_eq numberedFrom_newline)
  have "blankLinesFrom None (a @ 0x000A # 0x000A # q) =
    a @ blankLinesFrom (lastOpt None a) (0x000A # 0x000A # q)"
    using nl_a by (rule blankLinesFrom_skip)
  moreover have "blankLinesMatch (0x000A # 0x000A # q) = None" "blankLinesMatch (0x000A # q) = None"
    using q1(1) nl_q by (cases q; auto simp: blankLinesMatch_def split: list.splits)+
  moreover have "blankLinesFrom (Some 0x000A) (q @ []) = q @ blankLinesFrom (lastOpt (Some 0x000A) q) []"
    using nl_q by (rule blankLinesFrom_skip)
  ultimately have c: "cleanBlankLines ?t = ?t"
    by (simp add: cleanBlankLines_eq blankLinesFrom_Cons)
  have "trim ?t = ?t"
    using a(1,3) q1(1,3) by (intro trim_id) simp_all
  with b n c show ?thesis by simp
qed



text \<open>Two plain paragraphs with the paragraph break between them.\<close>

lemma two_paragraphs_format:
  assumes p: "plainParagraph p" and q: "plainParagraph q"
  shows "formatAsMarkdown (p @ paragraphBreak @ q) =
    Inr ((if 5 < length p \<and> length p < 60 \<and> \<not> startsWithMarker p \<and> length p < length q
          then js ''## '' else []) @ p @ paragraphBreak @ q)"
proof -
  let ?arr = "[p, q]"
  let ?sep = "[0x000A, 0x000A] :: jsstring"
  have sep: "paragraphBreak = ?sep"
    by (simp add: paragraphBreak_def js_def)
  from p have p1: "p \<noteq> []" "\<forall>c\<in>set p. \<not> isLineTerminator c" "\<not> isSpace (hd p)"
    "\<not> isSpace (last p)" "hd p \<notin> set bulletGlyphs" "\<not> isDigit (hd p)"
    by (simp_all add: plainParagraph_def)
  from q have q1: "q \<noteq> []" "\<forall>c\<in>set q. \<not> isLineTerminator c" "\<not> isSpace (hd q)"
    "\<not> isSpace (last q)"
    by (simp_all add: plainParagraph_def)
  have nl_p: "0x000A \<notin> set p" and nl_q: "0x000A \<notin> set q"
    using p1(2) q1(2) newline_space(2) by blast+
  have tr: "trim p = p" "trim q = q"
    using p1 q1 trim_id [of p] trim_id [of q] by simp_all
  have "splitOn ?sep (p @ ?sep @ q) = p # splitOn ?sep q"
    using nl_p by (intro splitOn_prefix) simp_all
  moreover have "splitOn ?sep q = [q]"
    using nl_q by (intro splitOn_absent) simp_all
  ultimately have ps: "paragraphs (p @ paragraphBreak @ q) = ?arr"
    using p1(1) q1(1) by (simp add: paragraphs_def split_def sep tr)
  have "\<not> startsNumbered p"
    using p1(1,6) by (cases p) (simp_all add: startsNumbered_def)
  then have h0: "headingBySpec ?arr 0 \<longleftrightarrow>
    5 < length p \<and> length p < 60 \<and> \<not> startsWithMarker p \<and> length p < length q"
    by (auto simp: headingBySpec_def tr)
  have h1: "\<not> headingBySpec ?arr (Suc 0)"
    by (simp add: headingBySpec_def)
  let ?h = "if headingBySpec ?arr 0 then js ''## '' @ p else p"
  have idx: "[0..<2] = [0, Suc 0]"
    by (simp add: numeral_2_eq_2)
  have "formatAsMarkdown (p @ paragraphBreak @ q) =
    Inr (trim (cleanBlankLines (formatNumbered (formatBullets (?h @ [0x000A, 0x000A] @ q)))))"
    unfolding formatAsMarkdown_Inr ps by (simp add: idx h1 tr sep)
  moreover have "trim (cleanBlankLines (formatNumbered (formatBullets (?h @ [0x000A, 0x000A] @ q))))
    = ?h @ [0x000A, 0x000A] @ q"
  proof (rule two_paragraphs_settled [OF _ _ _ _ _ q])
    show "?h \<noteq> []" using p1(1) by simp
    show "\<forall>c\<in>set ?h. \<not> isLineTerminator c"
      using p1(2) hash_plain(3) blank_space(2) by (auto simp: js_def)
    show "\<not> isSpace (hd ?h)" using p1(3) hash_plain(1) by (simp add: js_def)
    show "hd ?h \<notin> set bulletGlyphs" using p1(5) hash_plain(4) by (simp add: js_def)
    show "\<not> isDigit (hd ?h)" using p1(6) hash_plain(2) by (simp add: js_def)
  qed
  ultimately show ?thesis
    by (simp add: h0 sep)
qed

section \<open>The heading rule, end to end\<close>

text \<open>
  C1. The paragraphs that \<open>formatAsMarkdown\<close> formats are those of its text, each one
  replaced by \<open>## \<close> and its trimmed form exactly when the specification's heading rule
  holds, and by its trimmed form otherwise; so say the callback at each index of the
  sequence, the map over the sequence, and the function as a whole, whose result is the
  list replacements, the blank line collapse and the trim applied to the join of these
  paragraphs. A trimmed length of 5 or 60 is never a heading; a trimmed length of 6 or 59
  is one when the paragraph has no numeral prefix and no list marker, is not the last one
  and the next paragraph is longer. For a text of two plain paragraphs the Markdown is
  the text itself, with \<open>## \<close> before it exactly when the first paragraph has more than 5
  and less than 60 code units, does not start with \<open>-\<close> or \<open>*\<close>, and is shorter than the
  second.
\<close>

theorem heading_classification:
  "(idx < length arr \<longrightarrow>
     (formatParagraph arr idx = Inr (js ''## '' @ trim (arr ! idx))) = headingBySpec arr idx \<and>
     (\<not> headingBySpec arr idx \<longrightarrow> formatParagraph arr idx = Inr (trim (arr ! idx))) \<and>
     (length (trim (arr ! idx)) = 5 \<or> length (trim (arr ! idx)) = 60 \<longrightarrow>
        \<not> headingBySpec arr idx) \<and>
     ((length (trim (arr ! idx)) = 6 \<or> length (trim (arr ! idx)) = 59) \<and>
      \<not> startsNumbered (trim (arr ! idx)) \<and> \<not> startsWithMarker (trim (arr ! idx)) \<and>
      idx + 1 < length arr \<and> length (trim (arr ! idx)) < length (arr ! (idx + 1)) \<longrightarrow>
        headingBySpec arr idx)) \<and>
   formattedParagraphs arr =
     Inr (map (\<lambda>i. if headingBySpec arr i then js ''## '' @ trim (arr ! i) else trim (arr ! i))
            [0..<length arr]) \<and>
   formatAsMarkdown text =
     Inr (trim (cleanBlankLines (formatNumbered (formatBullets (join paragraphBreak
       (map (\<lambda>i. if headingBySpec (paragraphs text) i then js ''## '' @ trim (paragraphs text ! i)
                  else trim (paragraphs text ! i))
          [0..<length (paragraphs text)])))))) \<and>
   (plainParagraph p \<and> plainParagraph q \<longrightarrow>
      formatAsMarkdown (p @ paragraphBreak @ q) =
        Inr ((if 5 < length p \<and> length p < 60 \<and> \<not> startsWithMarker p \<and> length p < length q
              then js ''## '' else []) @ p @ paragraphBreak @ q))"
proof (intro conjI impI)
  assume idx: "idx < length arr"
  have ne: "js ''## '' @ t \<noteq> t" for t :: jsstring
    by (simp add: js_def)
  show "(formatParagraph arr idx = Inr (js ''## '' @ trim (arr ! idx))) = headingBySpec arr idx"
    using ne [of "trim (arr ! idx)"] by (auto simp: formatParagraph_eq [OF idx])
  show "formatParagraph arr idx = Inr (trim (arr ! idx))" if "\<not> headingBySpec arr idx"
    using that by (simp add: formatParagraph_eq [OF idx])
  show "\<not> headingBySpec arr idx"
    if "length (trim (arr ! idx)) = 5 \<or> length (trim (arr ! idx)) = 60"
    using that by (auto simp: headingBySpec_def Let_def)
  show "headingBySpec arr idx"
    if "(length (trim (arr ! idx)) = 6 \<or> length (trim (arr ! idx)) = 59) \<and>
      \<not> startsNumbered (trim (arr ! idx)) \<and> \<not> startsWithMarker (trim (arr ! idx)) \<and>
      idx + 1 < length arr \<and> length (trim (arr ! idx)) < length (arr ! (idx + 1))"
    using that by (auto simp: headingBySpec_def Let_def)
next
  show "formattedParagraphs arr =
     Inr (map (\<lambda>i. if headingBySpec arr i then js ''## '' @ trim (arr ! i) else trim (arr ! i))
            [0..<length arr])"
    by (rule formattedParagraphs_eq)
next
  show "formatAsMarkdown text =
     Inr (trim (cleanBlankLines (formatNumbered (formatBullets (join paragraphBreak
       (map (\<lambda>i. if headingBySpec (paragraphs text) i then js ''## '' @ trim (paragraphs text ! i)
                  else trim (paragraphs text ! i))
          [0..<length (paragraphs text)]))))))"
    by (rule formatAsMarkdown_Inr)
next
  assume "plainParagraph p \<and> plainParagraph q"
  then show "formatAsMarkdown (p @ paragraphBreak @ q) =
        Inr ((if 5 < length p \<and> length p < 60 \<and> \<not> startsWithMarker p \<and> length p < length q
              then js ''## '' else []) @ p @ paragraphBreak @ q)"
    by (intro two_paragraphs_format) simp_all
qed

text \<open>
  Paragraphs of 6, 5, 59 and 60 code units before a longer one: as elements of the
  sequence, and as the first of two paragraphs of a text.
\<close>

theorem heading_classification_witness:
  "formatParagraph [js ''Title!'', js ''A longer paragraph''] 0 = Inr (js ''## Title!'') \<and>
   formatParagraph [js ''Title'', js ''A longer paragraph''] 0 = Inr (js ''Title'') \<and>
   formatParagraph [js ''The quick brown fox jumps over the lazy dog near the river.'', js ''A following paragraph that is clearly longer than the short one before it.''] 0 = Inr (js ''## The quick brown fox jumps over the lazy dog near the river.'') \<and>
   formatParagraph [js ''The quick brown fox jumps over the lazy dog near the rivers.'', js ''A following paragraph that is clearly longer than the short one before it.''] 0 = Inr (js ''The quick brown fox jumps over the lazy dog near the rivers.'') \<and>
   formattedParagraphs [js ''Title!'', js ''A longer paragraph''] =
     Inr [js ''## Title!'', js ''A longer paragraph''] \<and>
   formatAsMarkdown (js ''Title!'' @ paragraphBreak @ js ''A longer paragraph'') =
     Inr (js ''## Title!'' @ paragraphBreak @ js ''A longer paragraph'') \<and>
   formatAsMarkdown (js ''Title'' @ paragraphBreak @ js ''A longer paragraph'') =
     Inr (js ''Title'' @ paragraphBreak @ js ''A longer paragraph'') \<and>
   formatAsMarkdown (js ''The quick brown fox jumps over the lazy dog near the river.'' @ paragraphBreak @ js ''A following paragraph that is clearly longer than the short one before it.'') =
     Inr (js ''## The quick brown fox jumps over the lazy dog near the river.'' @ paragraphBreak @ js ''A following paragraph that is clearly longer than the short one before it.'') \<and>
   formatAsMarkdown (js ''The quick brown fox jumps over the lazy dog near the rivers.'' @ paragraphBreak @ js ''A following paragraph that is clearly longer than the short one before it.'') =
     Inr (js ''The quick brown fox jumps over the lazy dog near the rivers.'' @ paragraphBreak @ js ''A following paragraph that is clearly longer than the short one before it.'')"
proof -
  let ?a = "js ''Title!''" and ?b = "js ''Title''"
  let ?c = "js ''The quick brown fox jumps over the lazy dog near the river.''"
  let ?d = "js ''The quick brown fox jumps over the lazy dog near the rivers.''"
  let ?q = "js ''A longer paragraph''"
  let ?r = "js ''A following paragraph that is clearly longer than the short one before it.''"
  have a: "headingBySpec [?a, ?q] 0" and a1: "\<not> headingBySpec [?a, ?q] (Suc 0)"
    and b: "\<not> headingBySpec [?b, ?q] 0"
    and c: "headingBySpec [?c, ?r] 0"
    and d: "\<not> headingBySpec [?d, ?r] 0"
    by code_simp+
  have t: "trim ?a = ?a" "trim ?b = ?b" "trim ?c = ?c" "trim ?d = ?d" "trim ?q = ?q"
    by code_simp+
  have pl: "plainParagraph ?a" "plainParagraph ?b" "plainParagraph ?c" "plainParagraph ?d"
    "plainParagraph ?q" "plainParagraph ?r"
    by code_simp+
  have m: "\<not> startsWithMarker ?a" "\<not> startsWithMarker ?c"
    by code_simp+
  have idx: "[0..<2] = [0, Suc 0]"
    by (simp add: numeral_2_eq_2)
  show ?thesis
    using heading_classification [of 0 "[?a, ?q]" "[]" ?a ?q]
      heading_classification [of 0 "[?b, ?q]" "[]" ?b ?q]
      heading_classification [of 0 "[?c, ?r]" "[]" ?c ?r]
      heading_classification [of 0 "[?d, ?r]" "[]" ?d ?r]
      a a1 b c d pl m
    by (simp add: t idx) (simp add: js_def)
qed

section \<open>Bullet normalization\<close>




section \<open>Blank lines, end to end\<close>




end
